theory Spec2Isabelle
  imports Main "HOL-Library.Sublist"
begin

text \<open>
  The thumbnail cache of the gallery server (\<open>main.go\<close>): the path of the thumbnail of a
  source file, its generation by an external tool, the map of pending generations, the
  two queues with their workers, and the request that waits for a thumbnail. The
  functions are modelled first, one definition per function of the source; the
  concurrent server is a step function on a state that holds the position of every
  goroutine. The properties follow, with the invariant of the server that they rest on.
\<close>

section \<open>Library functions used by the server (path/filepath and strings, POSIX)\<close>

text \<open>
  Paths are byte strings with separator \<open>/\<close>. The functions below follow the
  documented behaviour of Go's \<open>path/filepath\<close> on a POSIX system (no volume names).
\<close>

definition Separator :: char where
  "Separator = CHR ''/''"

text \<open>\<open>strings.Split(p, "/")\<close>: the pieces between separators (never the empty list).\<close>

fun split_sep :: "string \<Rightarrow> string list" where
  "split_sep [] = [[]]"
| "split_sep (c # cs) =
     (if c = Separator then [] # split_sep cs
      else (case split_sep cs of [] \<Rightarrow> [[c]] | x # xs \<Rightarrow> (c # x) # xs))"

text \<open>\<open>strings.Join(elems, "/")\<close>.\<close>

fun join_sep :: "string list \<Rightarrow> string" where
  "join_sep [] = []"
| "join_sep [c] = c"
| "join_sep (c # cs) = c @ Separator # join_sep cs"

text \<open>
  \<open>filepath.Clean\<close>: drop empty and \<open>.\<close> elements, cancel an inner \<open>..\<close> with the
  element before it, drop \<open>..\<close> at the start of a rooted path; the empty result is \<open>.\<close>.
  \<open>cancel_dotdot r st cs\<close> keeps the elements already emitted in \<open>st\<close>, last one first.
\<close>

fun cancel_dotdot :: "bool \<Rightarrow> string list \<Rightarrow> string list \<Rightarrow> string list" where
  "cancel_dotdot r st [] = rev st"
| "cancel_dotdot r st (c # cs) =
     (if c = ''..'' then
        (case st of
           [] \<Rightarrow> if r then cancel_dotdot r [] cs else cancel_dotdot r [''..''] cs
         | t # ts \<Rightarrow> if t = ''..'' then cancel_dotdot r (''..'' # st) cs
                     else cancel_dotdot r ts cs)
      else cancel_dotdot r (c # st) cs)"

definition rooted :: "string \<Rightarrow> bool" where
  "rooted p = (case p of [] \<Rightarrow> False | c # _ \<Rightarrow> c = Separator)"

definition path_elems :: "string \<Rightarrow> string list" where
  "path_elems p = filter (\<lambda>c. c \<noteq> [] \<and> c \<noteq> ''.'') (split_sep p)"

definition render :: "bool \<Rightarrow> string list \<Rightarrow> string" where
  "render r cs =
     (let out = (if r then [Separator] else []) @ join_sep cs
      in if out = [] then ''.'' else out)"

definition filepath_Clean :: "string \<Rightarrow> string" where
  "filepath_Clean p = render (rooted p) (cancel_dotdot (rooted p) [] (path_elems p))"

text \<open>\<open>filepath.Dir\<close>: everything up to and including the last separator, cleaned.\<close>

definition filepath_Dir :: "string \<Rightarrow> string" where
  "filepath_Dir p = filepath_Clean (rev (dropWhile (\<lambda>c. c \<noteq> Separator) (rev p)))"

text \<open>
  \<open>filepath.Base\<close>: the last element, after trailing separators are stripped;
  \<open>.\<close> for the empty path and \<open>/\<close> for a path of separators only.
\<close>

definition filepath_Base :: "string \<Rightarrow> string" where
  "filepath_Base p =
     (if p = [] then ''.''
      else let q = rev (dropWhile (\<lambda>c. c = Separator) (rev p));
               b = rev (takeWhile (\<lambda>c. c \<noteq> Separator) (rev q))
           in if b = [] then [Separator] else b)"

text \<open>
  \<open>filepath.Ext\<close>: the suffix from the final dot of the last element, empty if that
  element has no dot. \<open>ext_scan\<close> walks the path from its end.
\<close>

fun ext_scan :: "string \<Rightarrow> string \<Rightarrow> string" where
  "ext_scan [] acc = []"
| "ext_scan (c # cs) acc =
     (if c = Separator then []
      else if c = CHR ''.'' then c # acc
      else ext_scan cs (c # acc))"

definition filepath_Ext :: "string \<Rightarrow> string" where
  "filepath_Ext p = ext_scan (rev p) []"

text \<open>
  \<open>filepath.Join\<close>: leading empty elements are skipped, the rest is joined with the
  separator and cleaned; no non-empty element gives the empty string.
\<close>

definition filepath_Join :: "string list \<Rightarrow> string" where
  "filepath_Join es =
     (case dropWhile (\<lambda>e. e = []) es of
        [] \<Rightarrow> []
      | e # es' \<Rightarrow> filepath_Clean (join_sep (e # es')))"

text \<open>
  \<open>strings.ToLower\<close>. A string of ASCII bytes only is lowered byte by byte: the letters
  A-Z get bit 5 set (plus 32), every other byte is kept. A string with a byte from
  \<open>0x80\<close> on goes through \<open>strings.Map(unicode.ToLower, s)\<close>: it is read as UTF-8, every
  code point is mapped, and the results are written as UTF-8 again.
\<close>

definition to_lower_char :: "char \<Rightarrow> char" where
  "to_lower_char c =
     (if 65 \<le> (of_char c :: nat) \<and> (of_char c :: nat) \<le> 90
      then (case c of Char b0 b1 b2 b3 b4 b5 b6 b7 \<Rightarrow> Char b0 b1 b2 b3 b4 True b6 b7)
      else c)"

text \<open>\<open>utf8.RuneError\<close>, the code point that stands for a byte that is not UTF-8.\<close>

definition RuneError :: nat where
  "RuneError = 0xFFFD"

text \<open>
  The table \<open>first\<close> of \<open>unicode/utf8\<close> with \<open>acceptRanges\<close>: for the first byte of a
  sequence of more than one byte, the length of the sequence and the range of its second
  byte; \<open>None\<close> for an ASCII byte and for a byte that starts no sequence.
\<close>

definition first_byte :: "nat \<Rightarrow> (nat \<times> nat \<times> nat) option" where
  "first_byte b =
     (if 0xC2 \<le> b \<and> b \<le> 0xDF then Some (2, 0x80, 0xBF)
      else if b = 0xE0 then Some (3, 0xA0, 0xBF)
      else if (0xE1 \<le> b \<and> b \<le> 0xEC) \<or> b = 0xEE \<or> b = 0xEF then Some (3, 0x80, 0xBF)
      else if b = 0xED then Some (3, 0x80, 0x9F)
      else if b = 0xF0 then Some (4, 0x90, 0xBF)
      else if 0xF1 \<le> b \<and> b \<le> 0xF3 then Some (4, 0x80, 0xBF)
      else if b = 0xF4 then Some (4, 0x80, 0x8F)
      else None)"

text \<open>
  \<open>utf8.DecodeRuneInString\<close> on the byte values of a string: the code point at the start
  and the number of bytes it takes. A byte that starts no valid sequence, or a sequence
  cut short or with a byte out of range, is \<open>RuneError\<close> of width 1.
\<close>

definition utf8_DecodeRune :: "nat list \<Rightarrow> nat \<times> nat" where
  "utf8_DecodeRune bs =
     (case bs of
        [] \<Rightarrow> (RuneError, 0)
      | s0 # _ \<Rightarrow>
          (case first_byte s0 of
             None \<Rightarrow> if s0 < 0x80 then (s0, 1) else (RuneError, 1)
           | Some (sz, lo, hi) \<Rightarrow>
               if length bs < sz then (RuneError, 1)
               else if bs ! 1 < lo \<or> hi < bs ! 1 then (RuneError, 1)
               else if sz \<le> 2 then ((s0 mod 32) * 64 + bs ! 1 mod 64, 2)
               else if bs ! 2 < 0x80 \<or> 0xBF < bs ! 2 then (RuneError, 1)
               else if sz \<le> 3
                 then ((s0 mod 16) * 4096 + (bs ! 1 mod 64) * 64 + bs ! 2 mod 64, 3)
               else if bs ! 3 < 0x80 \<or> 0xBF < bs ! 3 then (RuneError, 1)
               else ((s0 mod 8) * 262144 + (bs ! 1 mod 64) * 4096
                       + (bs ! 2 mod 64) * 64 + bs ! 3 mod 64, 4)))"

text \<open>The code points of a string in order, as \<open>for _, c := range s\<close> yields them.\<close>

fun runes :: "nat list \<Rightarrow> nat list" where
  "runes [] = []"
| "runes (b # bs) =
     fst (utf8_DecodeRune (b # bs)) # runes (drop (snd (utf8_DecodeRune (b # bs)) - 1) bs)"

text \<open>
  \<open>utf8.AppendRune\<close>: the UTF-8 bytes of a code point; a surrogate or a value beyond
  \<open>0x10FFFF\<close> is written as \<open>RuneError\<close>.
\<close>

definition utf8_AppendRune :: "nat \<Rightarrow> nat list" where
  "utf8_AppendRune r =
     (if r \<le> 0x7F then [r]
      else if r \<le> 0x7FF then [0xC0 + r div 64, 0x80 + r mod 64]
      else if 0x10FFFF < r \<or> (0xD800 \<le> r \<and> r \<le> 0xDFFF) then [0xEF, 0xBF, 0xBD]
      else if r \<le> 0xFFFF
        then [0xE0 + r div 4096, 0x80 + (r div 64) mod 64, 0x80 + r mod 64]
      else [0xF0 + r div 262144, 0x80 + (r div 4096) mod 64,
            0x80 + (r div 64) mod 64, 0x80 + r mod 64])"

text \<open>
  \<open>strings.Map\<close> for a mapping that drops no code point: every code point of the string
  is mapped and written out.
\<close>

definition strings_Map :: "(nat \<Rightarrow> nat) \<Rightarrow> string \<Rightarrow> string" where
  "strings_Map mapping s =
     map char_of (concat (map (\<lambda>c. utf8_AppendRune (mapping c)) (runes (map of_char s))))"

text \<open>
  \<open>unicode.ToLower\<close>. ASCII is decided in the function itself; beyond ASCII the answer
  comes from the table \<open>unicode.CaseRanges\<close> of the Go runtime. Two of its entries lower a
  code point beyond ASCII to an ASCII letter: KELVIN SIGN (\<open>0x212A\<close>, delta -8383) to
  \<open>k\<close> and LATIN CAPITAL LETTER I WITH DOT ABOVE (\<open>0x130\<close>, delta -199) to \<open>i\<close>; they
  are written out. The other entries of the table are data of the runtime and are left
  open: \<open>unicode_CaseRanges\<close> is an arbitrary function, and what is proved below holds
  whatever its values are.
\<close>

definition unicode_CaseRanges :: "nat \<Rightarrow> nat" where
  "unicode_CaseRanges = undefined"

definition unicode_ToLower :: "nat \<Rightarrow> nat" where
  "unicode_ToLower r =
     (if r \<le> 0x7F then (if 0x41 \<le> r \<and> r \<le> 0x5A then r + 32 else r)
      else if r = 0x212A then 0x6B
      else if r = 0x130 then 0x69
      else unicode_CaseRanges r)"

definition strings_ToLower :: "string \<Rightarrow> string" where
  "strings_ToLower s =
     (if \<forall>c \<in> set s. (of_char c :: nat) < 0x80 then map to_lower_char s
      else strings_Map unicode_ToLower s)"

section \<open>The artifact key resolver\<close>

definition getThumbnailPath :: "string \<Rightarrow> string" where
  "getThumbnailPath imagePath =
     (let dir = filepath_Dir imagePath;
          baseName = filepath_Base imagePath;
          thumbnailDir = filepath_Join [dir, ''.small''];
          thumbnailPath = filepath_Join [thumbnailDir, baseName @ ''.jpg'']
      in thumbnailPath)"

subsection \<open>Clean paths\<close>

definition elem_ok :: "string \<Rightarrow> bool" where
  "elem_ok c = (c \<noteq> [] \<and> c \<noteq> ''.'' \<and> Separator \<notin> set c)"

fun leading_dotdot :: "string list \<Rightarrow> bool" where
  "leading_dotdot [] = True"
| "leading_dotdot (c # cs) = (if c = ''..'' then leading_dotdot cs else ''..'' \<notin> set cs)"

definition cancelled :: "bool \<Rightarrow> string list \<Rightarrow> bool" where
  "cancelled r cs = (if r then ''..'' \<notin> set cs else leading_dotdot cs)"

definition clean_form :: "bool \<Rightarrow> string list \<Rightarrow> bool" where
  "clean_form r cs = ((\<forall>c\<in>set cs. elem_ok c) \<and> cancelled r cs)"

definition file_name :: "string \<Rightarrow> bool" where
  "file_name b = (elem_ok b \<and> b \<noteq> ''..'')"

section \<open>The world outside the server: file system, clock, external tools\<close>

text \<open>
  \<open>os.Stat\<close> has three outcomes that the code tells apart: no error, an error for which
  \<open>os.IsNotExist\<close> holds, and any other error. The file system is the outcome of
  \<open>os.Stat\<close> at every path.
\<close>

datatype stat_result = StatOk | StatNotExist | StatOtherError

type_synonym fsys = "string \<Rightarrow> stat_result"

definition os_Stat :: "fsys \<Rightarrow> string \<Rightarrow> stat_result" where
  "os_Stat files p = files p"

definition os_IsNotExist :: "stat_result \<Rightarrow> bool" where
  "os_IsNotExist r = (r = StatNotExist)"

text \<open>
  What the environment decides in one call of \<open>generateThumbnail\<close>: whether
  \<open>os.MkdirAll\<close> succeeds, whether \<open>os.Open\<close> of an existing source succeeds, and
  whether the external command succeeds.
\<close>

record env =
  mkdir_ok :: bool
  open_ok :: bool
  run_ok :: bool

text \<open>
  \<open>os.MkdirAll\<close>, when it succeeds, leaves the directory and every directory above it
  in place; no other path is touched.
\<close>

definition dir_or_ancestor :: "string \<Rightarrow> string \<Rightarrow> bool" where
  "dir_or_ancestor q d =
     (q = d \<or> prefix (q @ [Separator]) d \<or> (q = [Separator] \<and> rooted d))"

definition os_MkdirAll :: "string \<Rightarrow> fsys \<Rightarrow> fsys" where
  "os_MkdirAll d files =
     (\<lambda>q. if dir_or_ancestor q d \<and> files q = StatNotExist then StatOk else files q)"

definition os_Open :: "env \<Rightarrow> fsys \<Rightarrow> string \<Rightarrow> bool" where
  "os_Open e files p = (files p = StatOk \<and> open_ok e)"

datatype tool = Ffmpeg | Vipsthumbnail

text \<open>One run of an external command: the tool, its input, its output path, its outcome.\<close>

record invocation =
  inv_tool :: tool
  inv_input :: string
  inv_output :: string
  inv_ok :: bool

datatype error =
    ErrMkdir          \<comment> \<open>failed to create thumbnail directory\<close>
  | ErrGenerate       \<comment> \<open>failed to generate thumbnail\<close>
  | ErrOpen           \<comment> \<open>failed to open image for vips stdin\<close>
  | ErrUnsupported    \<comment> \<open>unsupported file type for thumbnail generation\<close>
  | ErrNotFound       \<comment> \<open>thumbnail generation completed but file not found\<close>
  | ErrTimeout        \<comment> \<open>thumbnail generation timeout\<close>

section \<open>Media classes\<close>

definition imageExtensions_table :: "(string \<times> bool) list" where
  "imageExtensions_table =
     [(''.jpg'', True), (''.jpeg'', True), (''.png'', True), (''.heic'', True),
      (''.HEIC'', True), (''.arw'', True), (''.ARW'', True), (''.raw'', True),
      (''.RAW'', True), (''.heif'', True), (''.HEIF'', True), (''.dng'', True),
      (''.DNG'', True)]"

definition movieExtensions_table :: "(string \<times> bool) list" where
  "movieExtensions_table =
     [(''.mov'', True), (''.MOV'', True), (''.mp4'', True), (''.MP4'', True),
      (''.avi'', True), (''.AVI'', True), (''.mkv'', True), (''.MKV'', True)]"

text \<open>Indexing a Go \<open>map[string]bool\<close>: a missing key reads as \<open>false\<close>.\<close>

definition lookup_bool :: "(string \<times> bool) list \<Rightarrow> string \<Rightarrow> bool" where
  "lookup_bool tbl k = (case map_of tbl k of None \<Rightarrow> False | Some b \<Rightarrow> b)"

definition imageExtensions :: "string \<Rightarrow> bool" where
  "imageExtensions ext = lookup_bool imageExtensions_table ext"

definition movieExtensions :: "string \<Rightarrow> bool" where
  "movieExtensions ext = lookup_bool movieExtensions_table ext"

datatype mclass = ImageClass | MovieClass

section \<open>The server\<close>

text \<open>A buffered \<open>chan string\<close>: its buffer, oldest first, and its capacity.\<close>

record chan =
  buf :: "string list"
  cap :: nat

text \<open>A non-blocking send (\<open>select\<close> with \<open>default\<close>): \<open>None\<close> when the buffer is full.\<close>

definition try_send :: "chan \<Rightarrow> string \<Rightarrow> chan option" where
  "try_send q x = (if length (buf q) < cap q then Some (q\<lparr>buf := buf q @ [x]\<rparr>) else None)"

datatype response =
    NotFound                     \<comment> \<open>404 File not found\<close>
  | InternalServerError error    \<comment> \<open>500 Failed to generate thumbnail\<close>
  | ServeFile string             \<comment> \<open>\<open>http.ServeFile\<close> of the thumbnail\<close>
  | Panicked                     \<comment> \<open>the handler panicked; net/http drops the connection\<close>

text \<open>
  Where a request is in \<open>handleThumbnail\<close> (\<open>H_\<close>, from the check that the source
  exists onwards) or in \<open>queueAndWaitForThumbnail\<close> (\<open>Q_\<close>). The arguments are the local
  variables that are live there: \<open>fullPath\<close>/\<open>imagePath\<close>, \<open>thumbnailPath\<close>, the
  channel \<open>done\<close>, the error to return, the deadline of the timer.
\<close>

datatype rpc =
    H_Stat string
  | H_StatThumb string
  | Q_LoadOrStore string string
  | Q_Route string string nat
  | Q_Generate string string nat
  | Q_Run string string nat tool
  | Q_Close string string nat "error option"
  | Q_Delete string string "error option"
  | Q_Wait string nat nat
  | Responded response

text \<open>Where a worker is in its loop over the queue.\<close>

datatype wpc =
    W_Recv
  | W_Generate string
  | W_Run string tool
  | W_LoadAndDelete string "error option"
  | W_Close nat

text \<open>
  The \<open>Server\<close> struct with the state around it: the file system, the external
  commands run so far, the clock (nanoseconds), the channels closed so far and the number
  of channels made, the request goroutines and the worker goroutines.
  \<open>pendingThumbs\<close> is the \<open>sync.Map\<close> from thumbnail path to the \<open>done\<close> channel.
\<close>

record server =
  files :: fsys
  calls :: "invocation list"
  now :: nat
  pendingThumbs :: "string \<rightharpoonup> nat"
  closed :: "nat set"
  chans :: nat
  imageThumbnailQueue :: chan
  movieThumbnailQueue :: chan
  requests :: "rpc list"
  workers :: "(mclass \<times> wpc) list"
  crashed :: bool

definition time_Second :: nat where
  "time_Second = 1000000000"

definition wait_timeout :: nat where
  "wait_timeout = 30 * time_Second"

text \<open>
  \<open>main\<close>: two queues of capacity \<open>queueSize\<close>, \<open>numImageWorkers\<close> image workers and
  \<open>numMovieWorkers\<close> movie workers, nothing pending. \<open>main\<close> itself uses 250, 2 and 1.
\<close>

definition new_server :: "nat \<Rightarrow> nat \<Rightarrow> nat \<Rightarrow> fsys \<Rightarrow> server" where
  "new_server queueSize numImageWorkers numMovieWorkers fs0 =
     \<lparr>files = fs0, calls = [], now = 0, pendingThumbs = Map.empty, closed = {}, chans = 0,
      imageThumbnailQueue = \<lparr>buf = [], cap = queueSize\<rparr>,
      movieThumbnailQueue = \<lparr>buf = [], cap = queueSize\<rparr>,
      requests = [],
      workers = replicate numImageWorkers (ImageClass, W_Recv)
                @ replicate numMovieWorkers (MovieClass, W_Recv),
      crashed = False\<rparr>"

definition main_server :: "fsys \<Rightarrow> server" where
  "main_server fs0 = new_server 250 2 1 fs0"

subsection \<open>generateThumbnail\<close>

text \<open>
  \<open>generateThumbnail\<close> up to the point where the external command is started: it
  either returns (\<open>Finished\<close>) or has a command to run (\<open>Running\<close>).
\<close>

datatype progress = Finished "error option" | Running tool

definition generateThumbnail_start :: "env \<Rightarrow> string \<Rightarrow> fsys \<Rightarrow> progress \<times> fsys" where
  "generateThumbnail_start e imagePath fs0 =
     (let thumbnailPath = getThumbnailPath imagePath;
          thumbnailDir = filepath_Dir thumbnailPath
      in if os_Stat fs0 thumbnailPath = StatOk then (Finished None, fs0)
         else if \<not> mkdir_ok e then (Finished (Some ErrMkdir), fs0)
         else let fs1 = os_MkdirAll thumbnailDir fs0;
                  ext = strings_ToLower (filepath_Ext imagePath)
              in if movieExtensions ext then (Running Ffmpeg, fs1)
                 else if imageExtensions ext then
                   (if os_Open e fs1 imagePath then (Running Vipsthumbnail, fs1)
                    else (Finished (Some ErrOpen), fs1))
                 else (Finished (Some ErrUnsupported), fs1))"

text \<open>
  Modelled from the spec: the external tools (ffmpeg, vipsthumbnail) are not part of the
  repository. By the Transcoder contract a run either produces the artifact at the output
  path or fails and produces nothing; \<open>cmd.Run\<close> reports which. Every run is recorded.
\<close>

definition cmd_Run :: "env \<Rightarrow> tool \<Rightarrow> string \<Rightarrow> server \<Rightarrow> error option \<times> server" where
  "cmd_Run e t imagePath s =
     (let thumbnailPath = getThumbnailPath imagePath;
          run = \<lparr>inv_tool = t, inv_input = imagePath, inv_output = thumbnailPath,
                 inv_ok = run_ok e\<rparr>
      in if run_ok e
         then (None, s\<lparr>files := (files s)(thumbnailPath := StatOk), calls := calls s @ [run]\<rparr>)
         else (Some ErrGenerate, s\<lparr>calls := calls s @ [run]\<rparr>))"

definition generateThumbnail :: "env \<Rightarrow> string \<Rightarrow> server \<Rightarrow> error option \<times> server" where
  "generateThumbnail e imagePath s =
     (case generateThumbnail_start e imagePath (files s) of
        (Finished err, fs1) \<Rightarrow> (err, s\<lparr>files := fs1\<rparr>)
      | (Running t, fs1) \<Rightarrow> cmd_Run e t imagePath (s\<lparr>files := fs1\<rparr>))"

subsection \<open>handleThumbnail and queueAndWaitForThumbnail, one step of a request at a time\<close>

definition set_request :: "nat \<Rightarrow> rpc \<Rightarrow> server \<Rightarrow> server" where
  "set_request i pc s = s\<lparr>requests := (requests s)[i := pc]\<rparr>"

definition queue_of :: "mclass \<Rightarrow> server \<Rightarrow> chan" where
  "queue_of cls s = (case cls of ImageClass \<Rightarrow> imageThumbnailQueue s
                                | MovieClass \<Rightarrow> movieThumbnailQueue s)"

definition set_queue :: "mclass \<Rightarrow> chan \<Rightarrow> server \<Rightarrow> server" where
  "set_queue cls q s = (case cls of ImageClass \<Rightarrow> s\<lparr>imageThumbnailQueue := q\<rparr>
                                   | MovieClass \<Rightarrow> s\<lparr>movieThumbnailQueue := q\<rparr>)"

text \<open>What \<open>handleThumbnail\<close> answers once \<open>queueAndWaitForThumbnail\<close> has returned.\<close>

definition respond :: "error option \<Rightarrow> string \<Rightarrow> rpc" where
  "respond err thumbnailPath =
     (case err of Some e \<Rightarrow> Responded (InternalServerError e)
                | None \<Rightarrow> Responded (ServeFile thumbnailPath))"

text \<open>
  The \<open>select\<close> with \<open>default\<close> on the target queue: the path is queued and the request
  goes on to wait (its timer starts), or the queue is full and the request generates the
  thumbnail itself.
\<close>

definition enqueue_or_fallback :: "nat \<Rightarrow> mclass \<Rightarrow> string \<Rightarrow> string \<Rightarrow> nat \<Rightarrow> server \<Rightarrow> server" where
  "enqueue_or_fallback i cls imagePath thumbnailPath done s =
     (case try_send (queue_of cls s) imagePath of
        Some q \<Rightarrow> set_request i (Q_Wait thumbnailPath done (now s + wait_timeout)) (set_queue cls q s)
      | None \<Rightarrow> set_request i (Q_Generate imagePath thumbnailPath done) s)"

fun request_step :: "nat \<Rightarrow> env \<Rightarrow> rpc \<Rightarrow> server \<Rightarrow> server option" where
  "request_step i e (H_Stat fullPath) s =
     (if os_IsNotExist (os_Stat (files s) fullPath)
      then Some (set_request i (Responded NotFound) s)
      else Some (set_request i (H_StatThumb fullPath) s))"
| "request_step i e (H_StatThumb fullPath) s =
     (let thumbnailPath = getThumbnailPath fullPath
      in if os_IsNotExist (os_Stat (files s) thumbnailPath)
         then Some (set_request i (Q_LoadOrStore fullPath thumbnailPath) s)
         else Some (set_request i (Responded (ServeFile thumbnailPath)) s))"
| "request_step i e (Q_LoadOrStore imagePath thumbnailPath) s =
     (let fresh = chans s;
          s1 = s\<lparr>chans := fresh + 1\<rparr>
      in case pendingThumbs s thumbnailPath of
           Some done \<Rightarrow>
             Some (set_request i (Q_Wait thumbnailPath done (now s + wait_timeout)) s1)
         | None \<Rightarrow>
             Some (set_request i (Q_Route imagePath thumbnailPath fresh)
                     (s1\<lparr>pendingThumbs := (pendingThumbs s)(thumbnailPath \<mapsto> fresh)\<rparr>)))"
| "request_step i e (Q_Route imagePath thumbnailPath done) s =
     (let ext = strings_ToLower (filepath_Ext imagePath)
      in if movieExtensions ext
         then Some (enqueue_or_fallback i MovieClass imagePath thumbnailPath done s)
         else if imageExtensions ext
         then Some (enqueue_or_fallback i ImageClass imagePath thumbnailPath done s)
         else Some (set_request i (respond (Some ErrUnsupported) thumbnailPath) s))"
| "request_step i e (Q_Generate imagePath thumbnailPath done) s =
     (case generateThumbnail_start e imagePath (files s) of
        (Finished err, fs1) \<Rightarrow>
          Some (set_request i (Q_Close imagePath thumbnailPath done err) (s\<lparr>files := fs1\<rparr>))
      | (Running t, fs1) \<Rightarrow>
          Some (set_request i (Q_Run imagePath thumbnailPath done t) (s\<lparr>files := fs1\<rparr>)))"
| "request_step i e (Q_Run imagePath thumbnailPath done t) s =
     (case cmd_Run e t imagePath s of
        (err, s1) \<Rightarrow> Some (set_request i (Q_Close imagePath thumbnailPath done err) s1))"
| "request_step i e (Q_Close imagePath thumbnailPath done err) s =
     (if done \<in> closed s
      then Some (set_request i (Responded Panicked) s)
      else Some (set_request i (Q_Delete imagePath thumbnailPath err)
                   (s\<lparr>closed := insert done (closed s)\<rparr>)))"
| "request_step i e (Q_Delete imagePath thumbnailPath err) s =
     Some (set_request i (respond err thumbnailPath)
             (s\<lparr>pendingThumbs := (pendingThumbs s)(thumbnailPath := None)\<rparr>))"
| "request_step i e (Q_Wait thumbnailPath done deadline) s =
     (if done \<in> closed s
      then (if os_IsNotExist (os_Stat (files s) thumbnailPath)
            then Some (set_request i (respond (Some ErrNotFound) thumbnailPath) s)
            else Some (set_request i (respond None thumbnailPath) s))
      else None)"
| "request_step i e (Responded r) s = None"

text \<open>The timer case of the \<open>select\<close>: ready once the deadline has passed.\<close>

fun timeout_step :: "nat \<Rightarrow> rpc \<Rightarrow> server \<Rightarrow> server option" where
  "timeout_step i (Q_Wait thumbnailPath done deadline) s =
     (if deadline \<le> now s
      then Some (set_request i (respond (Some ErrTimeout) thumbnailPath) s)
      else None)"
| "timeout_step i pc s = None"

subsection \<open>imageThumbnailWorker and movieThumbnailWorker, one step at a time\<close>

definition set_worker :: "nat \<Rightarrow> mclass \<Rightarrow> wpc \<Rightarrow> server \<Rightarrow> server" where
  "set_worker i cls pc s = s\<lparr>workers := (workers s)[i := (cls, pc)]\<rparr>"

text \<open>
  The two worker functions differ in the queue they range over (and in the text they log);
  \<open>cls\<close> selects the queue. Receiving blocks while the queue is empty. Closing a closed
  channel panics, which ends the process.
\<close>

fun worker_step :: "nat \<Rightarrow> env \<Rightarrow> mclass \<Rightarrow> wpc \<Rightarrow> server \<Rightarrow> server option" where
  "worker_step i e cls W_Recv s =
     (case buf (queue_of cls s) of
        [] \<Rightarrow> None
      | imagePath # rest \<Rightarrow>
          Some (set_worker i cls (W_Generate imagePath)
                  (set_queue cls ((queue_of cls s)\<lparr>buf := rest\<rparr>) s)))"
| "worker_step i e cls (W_Generate imagePath) s =
     (case generateThumbnail_start e imagePath (files s) of
        (Finished err, fs1) \<Rightarrow>
          Some (set_worker i cls (W_LoadAndDelete imagePath err) (s\<lparr>files := fs1\<rparr>))
      | (Running t, fs1) \<Rightarrow>
          Some (set_worker i cls (W_Run imagePath t) (s\<lparr>files := fs1\<rparr>)))"
| "worker_step i e cls (W_Run imagePath t) s =
     (case cmd_Run e t imagePath s of
        (err, s1) \<Rightarrow> Some (set_worker i cls (W_LoadAndDelete imagePath err) s1))"
| "worker_step i e cls (W_LoadAndDelete imagePath err) s =
     (let thumbnailPath = getThumbnailPath imagePath
      in case pendingThumbs s thumbnailPath of
           Some doneChan \<Rightarrow>
             Some (set_worker i cls (W_Close doneChan)
                     (s\<lparr>pendingThumbs := (pendingThumbs s)(thumbnailPath := None)\<rparr>))
         | None \<Rightarrow> Some (set_worker i cls W_Recv s))"
| "worker_step i e cls (W_Close doneChan) s =
     (if doneChan \<in> closed s
      then Some (s\<lparr>crashed := True\<rparr>)
      else Some (set_worker i cls W_Recv (s\<lparr>closed := insert doneChan (closed s)\<rparr>)))"

definition imageThumbnailWorker :: "nat \<Rightarrow> env \<Rightarrow> wpc \<Rightarrow> server \<Rightarrow> server option" where
  "imageThumbnailWorker i e pc s = worker_step i e ImageClass pc s"

definition movieThumbnailWorker :: "nat \<Rightarrow> env \<Rightarrow> wpc \<Rightarrow> server \<Rightarrow> server option" where
  "movieThumbnailWorker i e pc s = worker_step i e MovieClass pc s"

subsection \<open>The whole system\<close>

text \<open>
  An event is one atomic step of one goroutine, the arrival of a request for a path that
  has passed the checks of the serving layer, or the passing of time. A step of a
  goroutine is one access to what the goroutines share (the file system, the pending map,
  a channel) together with the local computation around it; the external command runs
  between two steps, so other goroutines act while it runs. The goroutines interleave
  in any order. A step that is not possible in a state (a blocked goroutine, a finished
  request, a crashed process) gives \<open>None\<close>.
\<close>

datatype event =
    Accept string
  | Request nat env
  | Timeout nat
  | Worker nat env
  | Tick nat

definition step :: "event \<Rightarrow> server \<Rightarrow> server option" where
  "step ev s =
     (if crashed s then None
      else case ev of
        Accept fullPath \<Rightarrow> Some (s\<lparr>requests := requests s @ [H_Stat fullPath]\<rparr>)
      | Request i e \<Rightarrow>
          if i < length (requests s) then request_step i e (requests s ! i) s else None
      | Timeout i \<Rightarrow>
          if i < length (requests s) then timeout_step i (requests s ! i) s else None
      | Worker i e \<Rightarrow>
          if i < length (workers s)
          then (case workers s ! i of
                  (ImageClass, pc) \<Rightarrow> imageThumbnailWorker i e pc s
                | (MovieClass, pc) \<Rightarrow> movieThumbnailWorker i e pc s)
          else None
      | Tick d \<Rightarrow> Some (s\<lparr>now := now s + d\<rparr>))"

fun exec :: "event list \<Rightarrow> server \<Rightarrow> server option" where
  "exec [] s = Some s"
| "exec (ev # evs) s = (case step ev s of None \<Rightarrow> None | Some s1 \<Rightarrow> exec evs s1)"

inductive reachable :: "server \<Rightarrow> bool" where
  start: "reachable (new_server queueSize numImageWorkers numMovieWorkers fs0)"
| step: "reachable s \<Longrightarrow> step ev s = Some s1 \<Longrightarrow> reachable s1"

section \<open>Notions used to state the properties\<close>

text \<open>
  The media class as the specification words it: a path is an image (a movie) when the
  lower-case form of its extension is an image (movie) extension.
\<close>

definition spec_media_class :: "string \<Rightarrow> mclass option" where
  "spec_media_class p =
     (if imageExtensions (strings_ToLower (filepath_Ext p)) then Some ImageClass
      else if movieExtensions (strings_ToLower (filepath_Ext p)) then Some MovieClass
      else None)"

text \<open>A request is inside \<open>queueAndWaitForThumbnail\<close>.\<close>

fun in_queueAndWait :: "rpc \<Rightarrow> bool" where
  "in_queueAndWait (H_Stat p) = False"
| "in_queueAndWait (H_StatThumb p) = False"
| "in_queueAndWait (Responded r) = False"
| "in_queueAndWait pc = True"

text \<open>Concrete environments and file systems for the examples.\<close>

definition env_ok :: env where
  "env_ok = \<lparr>mkdir_ok = True, open_ok = True, run_ok = True\<rparr>"

definition env_tool_fails :: env where
  "env_tool_fails = \<lparr>mkdir_ok = True, open_ok = True, run_ok = False\<rparr>"

definition fs_example :: fsys where
  "fs_example =
     (\<lambda>p. if p \<in> set [''/r'', ''/r/clip.mov'', ''/r/beach.jpg'', ''/r/dune.png'',
                       ''/r/notes.txt'']
          then StatOk else StatNotExist)"

definition cached_state :: server where
  "cached_state =
     (main_server (fs_example(''/r/.small/beach.jpg.jpg'' := StatOk)))
       \<lparr>requests := [H_StatThumb ''/r/beach.jpg'']\<rparr>"

definition uncached_state :: server where
  "uncached_state = main_server fs_example"

definition hit_state :: server where
  "hit_state =
     (main_server (fs_example(''/r/.small/notes.txt.jpg'' := StatOk)))
       \<lparr>requests := [H_Stat ''/r/notes.txt'']\<rparr>"

definition waiting_state :: "nat set \<Rightarrow> fsys \<Rightarrow> server" where
  "waiting_state cl fs0 =
     (main_server fs0)
       \<lparr>requests := [Q_Wait ''/r/.small/clip.mov.jpg'' 0 30000000000],
        pendingThumbs := [''/r/.small/clip.mov.jpg'' \<mapsto> 0],
        closed := cl, chans := 1\<rparr>"

definition joining_state :: server where
  "joining_state =
     (main_server fs_example)
       \<lparr>requests := [Q_LoadOrStore ''/r/clip.mov'' ''/r/.small/clip.mov.jpg''],
        pendingThumbs := [''/r/.small/clip.mov.jpg'' \<mapsto> 0],
        chans := 1, now := 5\<rparr>"

definition routing_state :: server where
  "routing_state =
     (main_server fs_example)
       \<lparr>requests := [Q_Route ''/r/clip.mov'' ''/r/.small/clip.mov.jpg'' 0],
        pendingThumbs := [''/r/.small/clip.mov.jpg'' \<mapsto> 0],
        chans := 1, now := 7\<rparr>"

text \<open>A request for \<open>/r/notes.txt\<close> runs to its answer; then a second one arrives.\<close>

definition notes_trace :: "event list" where
  "notes_trace =
     [Accept ''/r/notes.txt'', Request 0 env_ok, Request 0 env_ok, Request 0 env_ok,
      Request 0 env_ok]"

definition notes_again_trace :: "event list" where
  "notes_again_trace =
     notes_trace @ [Accept ''/r/notes.txt'', Request 1 env_ok, Request 1 env_ok,
                    Request 1 env_ok]"

section \<open>Ownership of a generation and the invariant of the server\<close>

text \<open>
  A goroutine or a queue slot \<^emph>\<open>owns\<close> the generation for a thumbnail path from the
  moment a request has stored the entry in the pending map until the entry is deleted:
  the request that stored it (until it has queued the path, or, on the fallback, until it
  has deleted the entry), the queued path, and the worker that received it (until it has
  deleted the entry).
\<close>

fun request_owns :: "string \<Rightarrow> rpc \<Rightarrow> nat" where
  "request_owns k (Q_Route p t c) = (if t = k then 1 else 0)"
| "request_owns k (Q_Generate p t c) = (if t = k then 1 else 0)"
| "request_owns k (Q_Run p t c u) = (if t = k then 1 else 0)"
| "request_owns k (Q_Close p t c err) = (if t = k then 1 else 0)"
| "request_owns k (Q_Delete p t err) = (if t = k then 1 else 0)"
| "request_owns k pc = 0"

fun worker_owns :: "string \<Rightarrow> mclass \<times> wpc \<Rightarrow> nat" where
  "worker_owns k (cls, W_Generate p) = (if getThumbnailPath p = k then 1 else 0)"
| "worker_owns k (cls, W_Run p u) = (if getThumbnailPath p = k then 1 else 0)"
| "worker_owns k (cls, W_LoadAndDelete p err) = (if getThumbnailPath p = k then 1 else 0)"
| "worker_owns k (cls, pc) = 0"

definition queued :: "string \<Rightarrow> chan \<Rightarrow> nat" where
  "queued k q = length (filter (\<lambda>p. getThumbnailPath p = k) (buf q))"

definition owners :: "server \<Rightarrow> string \<Rightarrow> nat" where
  "owners s k =
     sum_list (map (request_owns k) (requests s)) + sum_list (map (worker_owns k) (workers s))
     + queued k (imageThumbnailQueue s) + queued k (movieThumbnailQueue s)"

text \<open>
  The generation tasks for a thumbnail path that are queued or executing: queued source
  paths, workers between receiving a path and the return of \<open>generateThumbnail\<close>, and
  requests inside \<open>generateThumbnail\<close> on the fallback.
\<close>

fun request_generates :: "string \<Rightarrow> rpc \<Rightarrow> nat" where
  "request_generates k (Q_Generate p t c) = (if t = k then 1 else 0)"
| "request_generates k (Q_Run p t c u) = (if t = k then 1 else 0)"
| "request_generates k pc = 0"

fun worker_generates :: "string \<Rightarrow> mclass \<times> wpc \<Rightarrow> nat" where
  "worker_generates k (cls, W_Generate p) = (if getThumbnailPath p = k then 1 else 0)"
| "worker_generates k (cls, W_Run p u) = (if getThumbnailPath p = k then 1 else 0)"
| "worker_generates k (cls, pc) = 0"

definition generation_tasks :: "server \<Rightarrow> string \<Rightarrow> nat" where
  "generation_tasks s k =
     sum_list (map (request_generates k) (requests s))
     + sum_list (map (worker_generates k) (workers s))
     + queued k (imageThumbnailQueue s) + queued k (movieThumbnailQueue s)"

text \<open>Some worker has taken the channel out of the map and is about to close it.\<close>

definition closing :: "server \<Rightarrow> nat \<Rightarrow> bool" where
  "closing s c = (\<exists>w<length (workers s). snd (workers s ! w) = W_Close c)"

fun request_ok :: "server \<Rightarrow> rpc \<Rightarrow> bool" where
  "request_ok s (Q_LoadOrStore p t) = (t = getThumbnailPath p)"
| "request_ok s (Q_Route p t c) =
     (t = getThumbnailPath p \<and> pendingThumbs s t = Some c \<and> c \<notin> closed s)"
| "request_ok s (Q_Generate p t c) =
     (t = getThumbnailPath p \<and> pendingThumbs s t = Some c \<and> c \<notin> closed s)"
| "request_ok s (Q_Run p t c u) =
     (t = getThumbnailPath p \<and> pendingThumbs s t = Some c \<and> c \<notin> closed s)"
| "request_ok s (Q_Close p t c err) =
     (t = getThumbnailPath p \<and> pendingThumbs s t = Some c \<and> c \<notin> closed s)"
| "request_ok s (Q_Delete p t err) =
     (t = getThumbnailPath p \<and> (\<exists>c. pendingThumbs s t = Some c \<and> c \<in> closed s))"
| "request_ok s (Q_Wait t c d) = (c \<in> closed s \<or> pendingThumbs s t = Some c \<or> closing s c)"
| "request_ok s (Responded r) = (r \<noteq> Panicked)"
| "request_ok s pc = True"

fun worker_ok :: "server \<Rightarrow> wpc \<Rightarrow> bool" where
  "worker_ok s (W_Close c) =
     (c \<notin> closed s \<and> c < chans s \<and> (\<forall>t. pendingThumbs s t \<noteq> Some c))"
| "worker_ok s pc = True"

definition deleting :: "server \<Rightarrow> string \<Rightarrow> bool" where
  "deleting s t = (\<exists>i<length (requests s). \<exists>p err. requests s ! i = Q_Delete p t err)"

definition pending_ok :: "server \<Rightarrow> bool" where
  "pending_ok s =
     (\<forall>t c. pendingThumbs s t = Some c \<longrightarrow>
        c < chans s \<and> (c \<in> closed s \<longrightarrow> deleting s t)
        \<and> (\<forall>t'. pendingThumbs s t' = Some c \<longrightarrow> t' = t))"

definition closers_distinct :: "server \<Rightarrow> bool" where
  "closers_distinct s =
     (\<forall>i j c. i < length (workers s) \<longrightarrow> j < length (workers s) \<longrightarrow> i \<noteq> j \<longrightarrow>
        snd (workers s ! i) = W_Close c \<longrightarrow> snd (workers s ! j) \<noteq> W_Close c)"

definition server_inv :: "server \<Rightarrow> bool" where
  "server_inv s =
     (\<not> crashed s
      \<and> (\<forall>k. owners s k \<le> 1)
      \<and> (\<forall>k. pendingThumbs s k = None \<longrightarrow> owners s k = 0)
      \<and> (\<forall>i<length (requests s). request_ok s (requests s ! i))
      \<and> (\<forall>i<length (workers s). worker_ok s (snd (workers s ! i)))
      \<and> pending_ok s
      \<and> closers_distinct s
      \<and> (\<forall>c\<in>closed s. c < chans s))"

text \<open>
  The main server after a request for \<open>/r/clip.mov\<close> has queued the path and the movie
  worker has received it.
\<close>

definition clip_trace :: "event list" where
  "clip_trace =
     [Accept ''/r/clip.mov'', Request 0 env_ok, Request 0 env_ok, Request 0 env_ok,
      Request 0 env_ok, Worker 2 env_ok]"

definition dequeued_state :: server where
  "dequeued_state =
     \<lparr>files = fs_example, calls = [], now = 0,
      pendingThumbs = [''/r/.small/clip.mov.jpg'' \<mapsto> 0], closed = {}, chans = 1,
      imageThumbnailQueue = \<lparr>buf = [], cap = 250\<rparr>,
      movieThumbnailQueue = \<lparr>buf = [], cap = 250\<rparr>,
      requests = [Q_Wait ''/r/.small/clip.mov.jpg'' 0 30000000000],
      workers = [(ImageClass, W_Recv), (ImageClass, W_Recv), (MovieClass, W_Generate ''/r/clip.mov'')],
      crashed = False\<rparr>"

text \<open>
  A server with queues of capacity 1: the request for \<open>/r/beach.jpg\<close> has filled the
  image queue, the request for \<open>/r/dune.png\<close> has stored its entry.
\<close>

definition full_trace :: "event list" where
  "full_trace =
     [Accept ''/r/beach.jpg'', Request 0 env_ok, Request 0 env_ok, Request 0 env_ok,
      Request 0 env_ok, Accept ''/r/dune.png'', Request 1 env_ok, Request 1 env_ok,
      Request 1 env_ok]"

definition full_state :: server where
  "full_state =
     \<lparr>files = fs_example, calls = [], now = 0,
      pendingThumbs = [''/r/.small/beach.jpg.jpg'' \<mapsto> 0, ''/r/.small/dune.png.jpg'' \<mapsto> 1],
      closed = {}, chans = 2,
      imageThumbnailQueue = \<lparr>buf = [''/r/beach.jpg''], cap = 1\<rparr>,
      movieThumbnailQueue = \<lparr>buf = [], cap = 1\<rparr>,
      requests = [Q_Wait ''/r/.small/beach.jpg.jpg'' 0 30000000000,
                  Q_Route ''/r/dune.png'' ''/r/.small/dune.png.jpg'' 1],
      workers = [(ImageClass, W_Recv), (MovieClass, W_Recv)],
      crashed = False\<rparr>"

section \<open>Tool runs\<close>

text \<open>No successful run for the thumbnail path \<open>k\<close> is on record.\<close>

definition no_success :: "invocation list \<Rightarrow> string \<Rightarrow> bool" where
  "no_success cs k = (\<forall>r\<in>set cs. inv_ok r \<longrightarrow> inv_output r \<noteq> k)"

text \<open>In the record of runs, oldest first, no run follows a successful run for the same output.\<close>

fun run_once :: "invocation list \<Rightarrow> bool" where
  "run_once [] = True"
| "run_once (r # rs) =
     ((inv_ok r \<longrightarrow> (\<forall>r'\<in>set rs. inv_output r' \<noteq> inv_output r)) \<and> run_once rs)"

definition success_cached :: "server \<Rightarrow> bool" where
  "success_cached s = (\<forall>r\<in>set (calls s). inv_ok r \<longrightarrow> files s (inv_output r) = StatOk)"

fun request_run_ok :: "server \<Rightarrow> rpc \<Rightarrow> bool" where
  "request_run_ok s (Q_Run p t c u) = no_success (calls s) (getThumbnailPath p)"
| "request_run_ok s pc = True"

fun worker_run_ok :: "server \<Rightarrow> wpc \<Rightarrow> bool" where
  "worker_run_ok s (W_Run p u) = no_success (calls s) (getThumbnailPath p)"
| "worker_run_ok s pc = True"

definition purity :: "server \<Rightarrow> bool" where
  "purity s =
     (success_cached s \<and> run_once (calls s)
      \<and> (\<forall>i<length (requests s). request_run_ok s (requests s ! i))
      \<and> (\<forall>w<length (workers s). worker_run_ok s (snd (workers s ! w))))"

text \<open>The runs on record for the thumbnail path \<open>k\<close>, and the successful ones among them.\<close>

definition runs_for :: "server \<Rightarrow> string \<Rightarrow> invocation list" where
  "runs_for s k = filter (\<lambda>r. inv_output r = k) (calls s)"

definition successful_runs_for :: "server \<Rightarrow> string \<Rightarrow> invocation list" where
  "successful_runs_for s k = filter (\<lambda>r. inv_ok r \<and> inv_output r = k) (calls s)"

text \<open>
  Two requests for \<open>/r/clip.mov\<close> find no thumbnail. The first stores the entry and
  queues the path; the movie worker runs ffmpeg, which fails, and completes. Then the
  second request stores a new entry and queues the path again, and ffmpeg runs again.
\<close>

definition twice_trace :: "event list" where
  "twice_trace =
     [Accept ''/r/clip.mov'', Accept ''/r/clip.mov'',
      Request 0 env_ok, Request 0 env_ok, Request 1 env_ok, Request 1 env_ok,
      Request 0 env_ok, Request 0 env_ok,
      Worker 2 env_ok, Worker 2 env_ok, Worker 2 env_tool_fails, Worker 2 env_ok, Worker 2 env_ok,
      Request 1 env_ok, Request 1 env_ok,
      Worker 2 env_ok, Worker 2 env_ok, Worker 2 env_ok]"

text \<open>The main server with a request for \<open>/r/clip.mov\<close> that has just stored its entry.\<close>

definition starter_trace :: "event list" where
  "starter_trace =
     [Accept ''/r/clip.mov'', Request 0 env_ok, Request 0 env_ok, Request 0 env_ok]"

definition starter_state :: server where
  "starter_state =
     \<lparr>files = fs_example, calls = [], now = 0,
      pendingThumbs = [''/r/.small/clip.mov.jpg'' \<mapsto> 0], closed = {}, chans = 1,
      imageThumbnailQueue = \<lparr>buf = [], cap = 250\<rparr>,
      movieThumbnailQueue = \<lparr>buf = [], cap = 250\<rparr>,
      requests = [Q_Route ''/r/clip.mov'' ''/r/.small/clip.mov.jpg'' 0],
      workers = [(ImageClass, W_Recv), (ImageClass, W_Recv), (MovieClass, W_Recv)],
      crashed = False\<rparr>"

definition queued_state :: server where
  "queued_state =
     \<lparr>files = fs_example, calls = [], now = 0,
      pendingThumbs = [''/r/.small/clip.mov.jpg'' \<mapsto> 0], closed = {}, chans = 1,
      imageThumbnailQueue = \<lparr>buf = [], cap = 250\<rparr>,
      movieThumbnailQueue = \<lparr>buf = [''/r/clip.mov''], cap = 250\<rparr>,
      requests = [Q_Wait ''/r/.small/clip.mov.jpg'' 0 30000000000],
      workers = [(ImageClass, W_Recv), (ImageClass, W_Recv), (MovieClass, W_Recv)],
      crashed = False\<rparr>"

text \<open>The number of tool runs on record for a thumbnail path after a trace of the main server.\<close>

definition tool_runs_after :: "event list \<Rightarrow> fsys \<Rightarrow> string \<Rightarrow> nat option" where
  "tool_runs_after evs fs0 k =
     map_option (\<lambda>s. length (runs_for s k)) (exec evs (main_server fs0))"

definition requests_after :: "event list \<Rightarrow> fsys \<Rightarrow> rpc list option" where
  "requests_after evs fs0 = map_option requests (exec evs (main_server fs0))"

section \<open>Properties of the path functions\<close>

lemma split_sep_not_Nil [simp]: "split_sep p \<noteq> []"
  by (induction p) (auto split: list.splits)

lemma split_sep_append: "split_sep (a @ Separator # y) = split_sep a @ split_sep y"
  by (induction a) (auto split: list.splits)

lemma split_sep_nosep: "Separator \<notin> set c \<Longrightarrow> split_sep c = [c]"
  by (induction c) (auto split: list.splits)

lemma split_sep_join:
  "\<forall>c\<in>set cs. Separator \<notin> set c \<Longrightarrow> cs \<noteq> [] \<Longrightarrow> split_sep (join_sep cs) = cs"
proof (induction cs rule: join_sep.induct)
  case (3 c d ds)
  then show ?case by (simp add: split_sep_append split_sep_nosep)
qed (simp_all add: split_sep_nosep)

lemma path_elems_append:
  "path_elems (a @ Separator # y) = path_elems a @ path_elems y"
  by (simp add: path_elems_def split_sep_append)

lemma path_elems_Nil [simp]: "path_elems [] = []"
  by (simp add: path_elems_def)

lemma path_elems_render:
  assumes "\<forall>c\<in>set cs. elem_ok c"
  shows "path_elems (render r cs) = cs"
proof (cases "cs = []")
  case True
  then show ?thesis
    by (cases r) (simp_all add: render_def path_elems_def Separator_def)
next
  case False
  have nosep: "\<forall>c\<in>set cs. Separator \<notin> set c" using assms by (simp add: elem_ok_def)
  have keep: "filter (\<lambda>c. c \<noteq> [] \<and> c \<noteq> ''.'') cs = cs"
    using assms by (simp add: elem_ok_def filter_id_conv)
  have j: "join_sep cs \<noteq> []" using False assms
    by (cases cs rule: join_sep.cases) (auto simp: elem_ok_def)
  show ?thesis
  proof (cases r)
    case True
    have "render r cs = [] @ Separator # join_sep cs" using True by (simp add: render_def)
    then have "path_elems (render r cs) = path_elems [] @ path_elems (join_sep cs)"
      by (simp only: path_elems_append)
    then show ?thesis using False nosep keep by (simp add: path_elems_def split_sep_join)
  next
    case False
    then have "render r cs = join_sep cs" using j by (simp add: render_def)
    then show ?thesis using \<open>cs \<noteq> []\<close> nosep keep by (simp add: path_elems_def split_sep_join)
  qed
qed

lemma rooted_render:
  assumes "\<forall>c\<in>set cs. elem_ok c"
  shows "rooted (render r cs @ z) = r"
proof (cases r)
  case True
  then show ?thesis by (simp add: render_def rooted_def)
next
  case False
  show ?thesis
  proof (cases cs rule: join_sep.cases)
    case 1
    then show ?thesis using False by (simp add: render_def rooted_def Separator_def)
  next
    case (2 c)
    then have "c \<noteq> []" "Separator \<notin> set c" using assms by (simp_all add: elem_ok_def)
    then show ?thesis using False 2 by (cases c) (auto simp: render_def rooted_def)
  next
    case (3 c d ds)
    then have "c \<noteq> []" "Separator \<notin> set c" using assms by (simp_all add: elem_ok_def)
    then show ?thesis using False 3 by (cases c) (auto simp: render_def rooted_def)
  qed
qed

lemma cancel_dotdot_snoc:
  "x \<noteq> ''..'' \<Longrightarrow> cancel_dotdot r st (cs @ [x]) = cancel_dotdot r st cs @ [x]"
  by (induction r st cs rule: cancel_dotdot.induct) (auto split: list.splits)

lemma cancel_dotdot_plain:
  "''..'' \<notin> set cs \<Longrightarrow> cancel_dotdot r st cs = rev st @ cs"
  by (induction cs arbitrary: st) auto

lemma cancel_dotdot_leading:
  "leading_dotdot cs \<Longrightarrow> set st \<subseteq> {''..''} \<Longrightarrow> cancel_dotdot False st cs = rev st @ cs"
proof (induction cs arbitrary: st)
  case Nil
  then show ?case by simp
next
  case (Cons c cs)
  show ?case
  proof (cases "c = ''..''")
    case True
    then show ?thesis using Cons by (cases st) auto
  next
    case False
    then show ?thesis using Cons by (simp add: cancel_dotdot_plain)
  qed
qed

lemma cancel_dotdot_cancelled:
  "cancelled r cs \<Longrightarrow> cancel_dotdot r [] cs = cs"
  by (cases r) (simp_all add: cancelled_def cancel_dotdot_plain cancel_dotdot_leading)

lemma leading_dotdot_snoc:
  "leading_dotdot cs \<Longrightarrow> x \<noteq> ''..'' \<Longrightarrow> leading_dotdot (cs @ [x])"
  by (induction cs) (auto split: if_splits)

lemma leading_dotdot_butlast:
  "leading_dotdot (cs @ [x]) \<Longrightarrow> leading_dotdot cs"
  by (induction cs) (auto split: if_splits)

lemma leading_dotdot_all:
  "leading_dotdot (cs @ [''..'']) \<Longrightarrow> set cs \<subseteq> {''..''}"
  by (induction cs) (auto split: if_splits)

lemma leading_dotdot_all_snoc:
  "set cs \<subseteq> {''..''} \<Longrightarrow> leading_dotdot (cs @ [''..''])"
  by (induction cs) (auto split: if_splits)

lemma cancelled_snoc: "cancelled r cs \<Longrightarrow> x \<noteq> ''..'' \<Longrightarrow> cancelled r (cs @ [x])"
  by (cases r) (simp_all add: cancelled_def leading_dotdot_snoc)

lemma cancel_dotdot_out:
  "cancelled r (rev st) \<Longrightarrow> cancelled r (cancel_dotdot r st cs)"
proof (induction r st cs rule: cancel_dotdot.induct)
  case (1 r st)
  then show ?case by simp
next
  case (2 r st c cs)
  show ?case
  proof (cases "c = ''..''")
    case False
    then have "cancelled r (rev (c # st))" using "2.prems" by (simp add: cancelled_snoc)
    then show ?thesis using False 2 by simp
  next
    case True
    show ?thesis
    proof (cases st)
      case Nil
      then show ?thesis using True 2 by (cases r) (simp_all add: cancelled_def)
    next
      case (Cons t ts)
      show ?thesis
      proof (cases "t = ''..''")
        case True
        have ld: "\<not> r \<and> leading_dotdot (rev ts @ [''..''])"
          using "2.prems" Cons True by (cases r) (simp_all add: cancelled_def)
        then have nr: "\<not> r" and all: "set (rev ts) \<subseteq> {''..''}"
          using leading_dotdot_all [of "rev ts"] by simp_all
        have "cancelled r (rev (''..'' # st))"
          using nr all Cons True leading_dotdot_all_snoc [of "rev ts @ [''..'']"]
          by (simp add: cancelled_def)
        then show ?thesis using True \<open>c = ''..''\<close> Cons 2 by simp
      next
        case False
        have "cancelled r (rev ts)"
          using "2.prems" Cons by (cases r) (auto simp: cancelled_def dest: leading_dotdot_butlast)
        then show ?thesis using False \<open>c = ''..''\<close> Cons 2 by simp
      qed
    qed
  qed
qed

lemma cancel_dotdot_elems:
  "set (cancel_dotdot r st cs) \<subseteq> set st \<union> set cs \<union> {''..''}"
  by (induction r st cs rule: cancel_dotdot.induct) (auto split: list.splits if_splits)

lemma elem_ok_dotdot [simp]: "elem_ok ''..''"
  by (simp add: elem_ok_def Separator_def)

lemma split_sep_nosep_elems: "c \<in> set (split_sep p) \<Longrightarrow> Separator \<notin> set c"
  by (induction p arbitrary: c) (auto split: list.splits if_splits)

lemma path_elems_ok: "c \<in> set (path_elems p) \<Longrightarrow> elem_ok c"
  by (auto simp: path_elems_def elem_ok_def dest: split_sep_nosep_elems)

lemma clean_form_Clean:
  "clean_form (rooted p) (cancel_dotdot (rooted p) [] (path_elems p))"
proof -
  have "cancelled (rooted p) (rev [])" by (simp add: cancelled_def)
  then have c: "cancelled (rooted p) (cancel_dotdot (rooted p) [] (path_elems p))"
    by (rule cancel_dotdot_out)
  have "\<forall>c\<in>set (cancel_dotdot (rooted p) [] (path_elems p)). elem_ok c"
    using cancel_dotdot_elems [of "rooted p" "[]" "path_elems p"] path_elems_ok [of _ p]
    by auto
  then show ?thesis using c by (simp add: clean_form_def)
qed

lemma clean_form_snoc: "clean_form r cs \<Longrightarrow> file_name x \<Longrightarrow> clean_form r (cs @ [x])"
  by (simp add: clean_form_def file_name_def cancelled_snoc)

lemma Clean_extend:
  assumes "clean_form r cs"
  shows "filepath_Clean (render r cs @ Separator # y)
           = render r (cancel_dotdot r [] (cs @ path_elems y))"
proof -
  have ok: "\<forall>c\<in>set cs. elem_ok c" using assms by (simp add: clean_form_def)
  have "rooted (render r cs @ Separator # y) = r" using ok by (rule rooted_render)
  moreover have "path_elems (render r cs @ Separator # y) = cs @ path_elems y"
    using ok by (simp add: path_elems_append path_elems_render)
  ultimately show ?thesis by (simp add: filepath_Clean_def)
qed

lemma path_elems_file_name: "file_name x \<Longrightarrow> path_elems x = [x]"
  by (simp add: file_name_def elem_ok_def path_elems_def split_sep_nosep)

lemma Clean_extend_name:
  assumes "clean_form r cs" and "file_name x"
  shows "filepath_Clean (render r cs @ Separator # x) = render r (cs @ [x])"
proof -
  have "clean_form r (cs @ [x])" using assms by (rule clean_form_snoc)
  then have "cancel_dotdot r [] (cs @ [x]) = cs @ [x]"
    by (simp add: clean_form_def cancel_dotdot_cancelled)
  then show ?thesis using assms by (simp add: Clean_extend path_elems_file_name)
qed

lemma Clean_trailing_sep:
  assumes "clean_form r cs"
  shows "filepath_Clean (render r cs @ [Separator]) = render r cs"
  using assms Clean_extend [OF assms, of "[]"]
  by (simp add: clean_form_def cancel_dotdot_cancelled)

lemma render_not_Nil [simp]: "render r cs \<noteq> []"
  by (simp add: render_def Let_def)

lemma join_sep_snoc: "cs \<noteq> [] \<Longrightarrow> join_sep (cs @ [x]) = join_sep cs @ Separator # x"
  by (induction cs rule: join_sep.induct) simp_all

lemma join_sep_not_Nil: "cs \<noteq> [] \<Longrightarrow> \<forall>c\<in>set cs. c \<noteq> [] \<Longrightarrow> join_sep cs \<noteq> []"
  by (cases cs rule: join_sep.cases) auto

lemma render_snoc:
  "cs \<noteq> [] \<Longrightarrow> \<forall>c\<in>set cs. c \<noteq> [] \<Longrightarrow> render r (cs @ [x]) = render r cs @ Separator # x"
  using join_sep_not_Nil [of cs] by (simp add: render_def Let_def join_sep_snoc)

lemma file_name_small [simp]: "file_name ''.small''"
  by (simp add: file_name_def elem_ok_def Separator_def)

lemma Join_two: "a \<noteq> [] \<Longrightarrow> filepath_Join [a, b] = filepath_Clean (a @ Separator # b)"
  by (simp add: filepath_Join_def)

lemma thumbnail_layout:
  assumes "clean_form r cs" and "file_name x"
  shows "filepath_Join [filepath_Join [render r cs, ''.small''], x]
           = render r (cs @ [''.small'', x])"
proof -
  have d: "filepath_Join [render r cs, ''.small''] = render r (cs @ [''.small''])"
    using assms(1) by (simp add: Join_two Clean_extend_name)
  have "clean_form r (cs @ [''.small''])" using assms(1) by (simp add: clean_form_snoc)
  then have "filepath_Clean (render r (cs @ [''.small'']) @ Separator # x)
               = render r ((cs @ [''.small'']) @ [x])"
    using assms(2) by (rule Clean_extend_name)
  then show ?thesis using d by (simp add: Join_two)
qed

lemma dir_prefix_file:
  "Separator \<notin> set b \<Longrightarrow>
     rev (dropWhile (\<lambda>c. c \<noteq> Separator) (rev (d @ Separator # b))) = d @ [Separator]"
proof -
  assume "Separator \<notin> set b"
  then have "dropWhile (\<lambda>c. c \<noteq> Separator) (rev b) = []" by auto
  then have "dropWhile (\<lambda>c. c \<noteq> Separator) (rev b @ Separator # rev d) = Separator # rev d"
    by (simp add: dropWhile_append3)
  then show ?thesis by simp
qed

lemma Base_file:
  assumes "Separator \<notin> set b" and "b \<noteq> []"
  shows "filepath_Base (d @ Separator # b) = b"
proof -
  obtain y ys where b: "rev b = y # ys" using assms(2) by (cases "rev b") auto
  then have "y \<noteq> Separator" using assms(1) by (metis list.set_intros(1) set_rev)
  then have q: "dropWhile (\<lambda>c. c = Separator) (rev (d @ Separator # b)) = rev b @ Separator # rev d"
    using b by simp
  have "takeWhile (\<lambda>c. c \<noteq> Separator) (rev b) = rev b" using assms(1) by auto
  then have "takeWhile (\<lambda>c. c \<noteq> Separator) (rev b @ Separator # rev d) = rev b"
    by (simp add: takeWhile_tail)
  then show ?thesis using q assms(2) by (simp add: filepath_Base_def Let_def)
qed

lemma Clean_fixed:
  assumes "filepath_Clean d = d"
  obtains r cs where "clean_form r cs" and "d = render r cs"
  using assms clean_form_Clean [of d] by (metis filepath_Clean_def)

lemma render_Nil: "render r [] = (if r then ''/'' else ''.'')"
  by (simp add: render_def Separator_def)

lemma file_name_jpg: "Separator \<notin> set b \<Longrightarrow> file_name (b @ ''.jpg'')"
  by (auto simp: file_name_def elem_ok_def Separator_def)

lemma thumbnail_of_file:
  assumes dir: "dir = [] \<or> (filepath_Clean dir = dir \<and> dir \<noteq> ''/'' \<and> dir \<noteq> ''.'')"
    and b: "file_name b"
  shows "getThumbnailPath (dir @ ''/'' @ b) = dir @ ''/.small/'' @ b @ ''.jpg''"
proof -
  have nosep: "Separator \<notin> set b" and ne: "b \<noteq> []"
    using b by (simp_all add: file_name_def elem_ok_def)
  have p: "dir @ ''/'' @ b = dir @ Separator # b" by (simp add: Separator_def)
  have base: "filepath_Base (dir @ Separator # b) = b" using nosep ne by (rule Base_file)
  have dirp: "filepath_Dir (dir @ Separator # b) = filepath_Clean (dir @ [Separator])"
    unfolding filepath_Dir_def dir_prefix_file [OF nosep] ..
  have x: "file_name (b @ ''.jpg'')" using nosep by (rule file_name_jpg)
  show ?thesis
  proof (cases "dir = []")
    case True
    have cf: "clean_form True []" by (simp add: clean_form_def cancelled_def)
    have "filepath_Clean [Separator] = render True []"
      by (simp add: filepath_Clean_def rooted_def path_elems_def)
    then have "getThumbnailPath (dir @ Separator # b) = render True ([] @ [''.small'', b @ ''.jpg''])"
      using True base dirp thumbnail_layout [OF cf x] by (simp add: getThumbnailPath_def)
    then show ?thesis using True p by (simp add: render_def Separator_def)
  next
    case False
    then have fixed: "filepath_Clean dir = dir" and nr: "dir \<noteq> ''/''" "dir \<noteq> ''.''"
      using dir by simp_all
    obtain r cs where cf: "clean_form r cs" and d: "dir = render r cs"
      using fixed by (rule Clean_fixed)
    have cs: "cs \<noteq> []" using d nr by (cases r) (auto simp: render_Nil)
    have ok: "\<forall>c\<in>set cs. c \<noteq> []" using cf by (simp add: clean_form_def elem_ok_def)
    have "filepath_Dir (dir @ Separator # b) = dir"
      using dirp d Clean_trailing_sep [OF cf] by simp
    then have "getThumbnailPath (dir @ Separator # b) = render r (cs @ [''.small'', b @ ''.jpg''])"
      using base d thumbnail_layout [OF cf x] by (simp add: getThumbnailPath_def)
    also have "\<dots> = render r ((cs @ [''.small'']) @ [b @ ''.jpg''])" by simp
    also have "\<dots> = render r (cs @ [''.small'']) @ Separator # b @ ''.jpg''"
      using ok by (subst render_snoc) simp_all
    also have "\<dots> = (render r cs @ Separator # ''.small'') @ Separator # b @ ''.jpg''"
      using render_snoc [OF cs ok, of r "''.small''"] by simp
    finally show ?thesis using d p by (simp add: Separator_def)
  qed
qed

text \<open>
  Claim C7. The artifact key resolver is a pure, total function of the source path.
  For a source file \<open>dir/name.ext\<close>, where \<open>dir\<close> is a clean path (or empty, for a
  file directly under the root) and \<open>name.ext\<close> is a file name, it returns exactly
  \<open>dir/.small/name.ext.jpg\<close>; two sources in one directory that differ only in their
  extension get different artifact paths.
\<close>

theorem getThumbnailPath_layout:
  assumes "dir = [] \<or> (filepath_Clean dir = dir \<and> dir \<noteq> ''/'' \<and> dir \<noteq> ''.'')"
    and "file_name (name @ ''.'' @ ext)"
  shows "getThumbnailPath (dir @ ''/'' @ name @ ''.'' @ ext)
           = dir @ ''/.small/'' @ name @ ''.'' @ ext @ ''.jpg''
         \<and> (\<forall>ext'. ext' \<noteq> ext \<longrightarrow> file_name (name @ ''.'' @ ext') \<longrightarrow>
               getThumbnailPath (dir @ ''/'' @ name @ ''.'' @ ext')
                 \<noteq> getThumbnailPath (dir @ ''/'' @ name @ ''.'' @ ext))"
  using assms thumbnail_of_file [of dir "name @ ''.'' @ ext"]
    thumbnail_of_file [of dir "name @ ''.'' @ _"]
  by simp

text \<open>The layout at \<open>/srv/pics/photo.jpg\<close>, against \<open>photo.png\<close> beside it.\<close>

theorem getThumbnailPath_layout_witness:
  "getThumbnailPath ''/srv/pics/photo.jpg'' = ''/srv/pics/.small/photo.jpg.jpg''
   \<and> getThumbnailPath ''/srv/pics/photo.png'' \<noteq> getThumbnailPath ''/srv/pics/photo.jpg''"
proof -
  have d: "''/srv/pics'' = [] \<or> (filepath_Clean ''/srv/pics'' = ''/srv/pics''
             \<and> ''/srv/pics'' \<noteq> ''/'' \<and> ''/srv/pics'' \<noteq> ''.'')"
    by (simp add: filepath_Clean_def rooted_def path_elems_def render_def Separator_def)
  have n: "file_name (''photo'' @ ''.'' @ ''jpg'')"
    by (simp add: file_name_def elem_ok_def Separator_def)
  have n': "file_name (''photo'' @ ''.'' @ ''png'')"
    by (simp add: file_name_def elem_ok_def Separator_def)
  show ?thesis
    using getThumbnailPath_layout [OF d n] n' by auto
qed

lemma Base_cases:
  "filepath_Base p = [Separator] \<or> (filepath_Base p \<noteq> [] \<and> Separator \<notin> set (filepath_Base p))"
  by (auto simp: filepath_Base_def Let_def Separator_def dest: set_takeWhileD)

lemma thumbnail_render:
  obtains r ys x where "clean_form r ys" and "ys \<noteq> []" and "file_name x"
    and "getThumbnailPath p = render r ys @ Separator # x"
proof -
  define pre where "pre = rev (dropWhile (\<lambda>c. c \<noteq> Separator) (rev p))"
  define r where "r = rooted pre"
  define cs where "cs = cancel_dotdot r [] (path_elems pre)"
  have cf: "clean_form r cs" unfolding r_def cs_def by (rule clean_form_Clean)
  have dir: "filepath_Dir p = render r cs"
    by (simp add: filepath_Dir_def filepath_Clean_def pre_def r_def cs_def)
  have cf1: "clean_form r (cs @ [''.small''])" using cf by (simp add: clean_form_snoc)
  have tdir: "filepath_Join [render r cs, ''.small''] = render r (cs @ [''.small''])"
    using cf by (simp add: Join_two Clean_extend_name)
  have ok: "\<forall>c\<in>set (cs @ [''.small'']). c \<noteq> []"
    using cf1 by (simp add: clean_form_def elem_ok_def)
  obtain x where x: "file_name x" and px: "path_elems (filepath_Base p @ ''.jpg'') = [x]"
  proof (cases "filepath_Base p = [Separator]")
    case True
    have "path_elems ([] @ Separator # ''.jpg'') = path_elems [] @ path_elems ''.jpg''"
      by (rule path_elems_append)
    then have "path_elems (filepath_Base p @ ''.jpg'') = [''.jpg'']"
      using True path_elems_file_name [of "''.jpg''"] file_name_jpg [of "[]"] by simp
    then show ?thesis using that file_name_jpg [of "[]"] by simp
  next
    case False
    then have "Separator \<notin> set (filepath_Base p)" using Base_cases [of p] by simp
    then have "file_name (filepath_Base p @ ''.jpg'')" by (rule file_name_jpg)
    then show ?thesis using that path_elems_file_name by blast
  qed
  have "cancel_dotdot r [] ((cs @ [''.small'']) @ [x]) = (cs @ [''.small'']) @ [x]"
    using clean_form_snoc [OF cf1 x] by (simp add: clean_form_def cancel_dotdot_cancelled)
  then have "filepath_Clean (render r (cs @ [''.small'']) @ Separator # filepath_Base p @ ''.jpg'')
               = render r ((cs @ [''.small'']) @ [x])"
    using Clean_extend [OF cf1] px by simp
  then have "getThumbnailPath p = render r ((cs @ [''.small'']) @ [x])"
    using dir tdir by (simp add: getThumbnailPath_def Join_two)
  also have "\<dots> = render r (cs @ [''.small'']) @ Separator # x"
    using ok by (subst render_snoc) simp_all
  finally show ?thesis using that [OF cf1 _ x] by simp
qed

lemma thumbnailDir_shorter:
  "length (filepath_Dir (getThumbnailPath p)) < length (getThumbnailPath p)"
proof -
  obtain r ys x where cf: "clean_form r ys" and x: "file_name x"
    and t: "getThumbnailPath p = render r ys @ Separator # x"
    by (rule thumbnail_render)
  have nosep: "Separator \<notin> set x" using x by (simp add: file_name_def elem_ok_def)
  have "filepath_Dir (getThumbnailPath p) = filepath_Clean (render r ys @ [Separator])"
    unfolding t filepath_Dir_def dir_prefix_file [OF nosep] ..
  then have "filepath_Dir (getThumbnailPath p) = render r ys"
    using Clean_trailing_sep [OF cf] by simp
  then show ?thesis using t by simp
qed

section \<open>Media classes\<close>

lemmas path_eval = getThumbnailPath_def filepath_Dir_def filepath_Base_def filepath_Join_def
  filepath_Clean_def render_def rooted_def path_elems_def Separator_def filepath_Ext_def
  strings_ToLower_def to_lower_char_def

lemmas class_eval = imageExtensions_def movieExtensions_def lookup_bool_def
  imageExtensions_table_def movieExtensions_table_def

lemma extension_tables_disjoint: "imageExtensions x \<Longrightarrow> \<not> movieExtensions x"
  by (auto simp: class_eval split: if_splits)

lemma media_class_code:
  "(if movieExtensions (strings_ToLower (filepath_Ext p)) then Some MovieClass
    else if imageExtensions (strings_ToLower (filepath_Ext p)) then Some ImageClass
    else None) = spec_media_class p"
  using extension_tables_disjoint [of "strings_ToLower (filepath_Ext p)"]
  by (simp add: spec_media_class_def)

lemma ext_scan_suffix:
  "CHR ''.'' \<notin> set x \<Longrightarrow> Separator \<notin> set x \<Longrightarrow>
     ext_scan (rev x @ CHR ''.'' # rest) acc = CHR ''.'' # x @ acc"
proof (induction x arbitrary: acc rule: rev_induct)
  case Nil
  then show ?case by (simp add: Separator_def)
next
  case (snoc c x)
  then show ?case by auto
qed

lemma Ext_of_suffix:
  "CHR ''.'' \<notin> set x \<Longrightarrow> Separator \<notin> set x \<Longrightarrow>
     filepath_Ext (stem @ CHR ''.'' # x) = CHR ''.'' # x"
  using ext_scan_suffix [of x "rev stem" "[]"] by (simp add: filepath_Ext_def)

text \<open>
  Lowering goes code point by code point, so the dot in front of an extension is kept
  and the rest is lowered on its own, for every byte string.
\<close>

lemma char_of_dot: "char_of (46 :: nat) = CHR ''.''"
  by code_simp

lemma Map_ToLower_dot:
  "strings_Map unicode_ToLower (CHR ''.'' # x) = CHR ''.'' # strings_Map unicode_ToLower x"
  by (simp add: strings_Map_def utf8_DecodeRune_def first_byte_def unicode_ToLower_def
      utf8_AppendRune_def char_of_dot)

lemma ToLower_dot: "strings_ToLower (CHR ''.'' # x) = CHR ''.'' # strings_ToLower x"
  by (simp add: strings_ToLower_def Map_ToLower_dot to_lower_char_def)

text \<open>
  Beyond ASCII: \<open>.m\<close>, KELVIN SIGN (bytes \<open>E2 84 AA\<close>), \<open>v\<close> lowers to \<open>.mkv\<close>, and
  \<open>.he\<close>, LATIN CAPITAL LETTER I WITH DOT ABOVE (bytes \<open>C4 B0\<close>), \<open>c\<close> lowers to \<open>.heic\<close>.
\<close>

lemmas lower_eval = strings_ToLower_def strings_Map_def utf8_DecodeRune_def first_byte_def
  unicode_ToLower_def utf8_AppendRune_def RuneError_def to_lower_char_def

lemma ToLower_kelvin:
  "strings_ToLower (''.m'' @ [CHR 0xE2, CHR 0x84, CHR 0xAA] @ ''v'') = ''.mkv''"
  apply (simp add: lower_eval)
  apply code_simp
  done

lemma ToLower_dotted_I:
  "strings_ToLower (''.he'' @ [CHR 0xC4, CHR 0xB0] @ ''c'') = ''.heic''"
  apply (simp add: lower_eval)
  apply code_simp
  done

lemma route_by_class:
  "request_step i e (Q_Route p t c) s =
     (case spec_media_class p of
        Some cls \<Rightarrow> Some (enqueue_or_fallback i cls p t c s)
      | None \<Rightarrow> Some (set_request i (Responded (InternalServerError ErrUnsupported)) s))"
  using extension_tables_disjoint [of "strings_ToLower (filepath_Ext p)"]
  by (simp add: spec_media_class_def respond_def)

text \<open>
  Claim C9. Classification is case-insensitive. Both the routing in
  \<open>queueAndWaitForThumbnail\<close> and the choice of tool in \<open>generateThumbnail\<close> decide by
  the lower-case form of the extension alone: a path is an image (a movie) exactly when
  that form is an image (movie) extension, so two paths whose extensions differ only in
  letter case, such as \<open>.JPG\<close> and \<open>.jpg\<close> or \<open>.MOV\<close> and \<open>.mov\<close>, are classified alike.
  The lower-case form is that of \<open>strings.ToLower\<close>, on every byte string: any two
  extensions that it sends to the same string get the same class.
\<close>
theorem media_class_case_insensitive:
  "request_step i e (Q_Route p t c) s =
     (case spec_media_class p of
        Some cls \<Rightarrow> Some (enqueue_or_fallback i cls p t c s)
      | None \<Rightarrow> Some (set_request i (Responded (InternalServerError ErrUnsupported)) s))
   \<and> (os_Stat fs (getThumbnailPath p) \<noteq> StatOk \<longrightarrow> mkdir_ok e \<longrightarrow>
        fst (generateThumbnail_start e p fs) =
          (case spec_media_class p of
             Some MovieClass \<Rightarrow> Running Ffmpeg
           | Some ImageClass \<Rightarrow>
               if os_Open e (os_MkdirAll (filepath_Dir (getThumbnailPath p)) fs) p
               then Running Vipsthumbnail else Finished (Some ErrOpen)
           | None \<Rightarrow> Finished (Some ErrUnsupported)))
   \<and> (strings_ToLower x = strings_ToLower y \<longrightarrow>
        CHR ''.'' \<notin> set x \<union> set y \<longrightarrow> Separator \<notin> set x \<union> set y \<longrightarrow>
        spec_media_class (stem @ ''.'' @ x) = spec_media_class (stem' @ ''.'' @ y))"
proof (intro conjI impI)
  show "request_step i e (Q_Route p t c) s =
     (case spec_media_class p of
        Some cls \<Rightarrow> Some (enqueue_or_fallback i cls p t c s)
      | None \<Rightarrow> Some (set_request i (Responded (InternalServerError ErrUnsupported)) s))"
    by (rule route_by_class)
next
  assume "os_Stat fs (getThumbnailPath p) \<noteq> StatOk" "mkdir_ok e"
  then show "fst (generateThumbnail_start e p fs) =
          (case spec_media_class p of
             Some MovieClass \<Rightarrow> Running Ffmpeg
           | Some ImageClass \<Rightarrow>
               if os_Open e (os_MkdirAll (filepath_Dir (getThumbnailPath p)) fs) p
               then Running Vipsthumbnail else Finished (Some ErrOpen)
           | None \<Rightarrow> Finished (Some ErrUnsupported))"
    using extension_tables_disjoint [of "strings_ToLower (filepath_Ext p)"]
    by (simp add: spec_media_class_def generateThumbnail_start_def Let_def)
next
  assume eq: "strings_ToLower x = strings_ToLower y"
    and dots: "CHR ''.'' \<notin> set x \<union> set y" and seps: "Separator \<notin> set x \<union> set y"
  have "filepath_Ext (stem @ ''.'' @ x) = CHR ''.'' # x"
    using dots seps Ext_of_suffix [of x stem] by simp
  moreover have "filepath_Ext (stem' @ ''.'' @ y) = CHR ''.'' # y"
    using dots seps Ext_of_suffix [of y stem'] by simp
  ultimately show "spec_media_class (stem @ ''.'' @ x) = spec_media_class (stem' @ ''.'' @ y)"
    using eq by (simp add: spec_media_class_def ToLower_dot)
qed

text \<open>
  \<open>a.JPG\<close> against \<open>b.jpg\<close>, \<open>a.MOV\<close> against \<open>a.mov\<close>, and an extension beyond ASCII:
  \<open>m\<close>, KELVIN SIGN (bytes \<open>E2 84 AA\<close>), \<open>v\<close>, which lowers to \<open>mkv\<close> and is a movie.
\<close>

theorem media_class_case_insensitive_witness:
  "spec_media_class ''/r/a.JPG'' = Some ImageClass
   \<and> spec_media_class ''/r/b.jpg'' = Some ImageClass
   \<and> spec_media_class ''/r/a.MOV'' = Some MovieClass
   \<and> spec_media_class ''/r/a.mov'' = Some MovieClass
   \<and> fst (generateThumbnail_start env_ok ''/r/a.MOV'' (\<lambda>p. StatNotExist)) = Running Ffmpeg
   \<and> spec_media_class (''/r/a.m'' @ [CHR 0xE2, CHR 0x84, CHR 0xAA] @ ''v'') = Some MovieClass
   \<and> fst (generateThumbnail_start env_ok (''/r/a.m'' @ [CHR 0xE2, CHR 0x84, CHR 0xAA] @ ''v'')
            (\<lambda>p. StatNotExist)) = Running Ffmpeg"
proof -
  have a: "spec_media_class ''/r/a.JPG'' = Some ImageClass"
    by (simp add: spec_media_class_def path_eval class_eval)
  have m: "spec_media_class ''/r/a.mov'' = Some MovieClass"
    by (simp add: spec_media_class_def path_eval class_eval)
  have l1: "strings_ToLower ''JPG'' = strings_ToLower ''jpg''"
    by (simp add: strings_ToLower_def to_lower_char_def)
  have l2: "strings_ToLower ''MOV'' = strings_ToLower ''mov''"
    by (simp add: strings_ToLower_def to_lower_char_def)
  have b: "spec_media_class (''/r/a'' @ ''.'' @ ''JPG'') = spec_media_class (''/r/b'' @ ''.'' @ ''jpg'')"
    using media_class_case_insensitive [of 0 env_ok "''''" "''''" 0 "main_server (\<lambda>p. StatNotExist)" "\<lambda>p. StatNotExist" "''JPG''" "''jpg''" "''/r/a''" "''/r/b''"] l1
    by (simp add: Separator_def)
  have c: "spec_media_class (''/r/a'' @ ''.'' @ ''MOV'') = spec_media_class (''/r/a'' @ ''.'' @ ''mov'')"
    using media_class_case_insensitive [of 0 env_ok "''''" "''''" 0 "main_server (\<lambda>p. StatNotExist)" "\<lambda>p. StatNotExist" "''MOV''" "''mov''" "''/r/a''" "''/r/a''"] l2
    by (simp add: Separator_def)
  have g: "fst (generateThumbnail_start env_ok ''/r/a.MOV'' (\<lambda>p. StatNotExist)) = Running Ffmpeg"
    using media_class_case_insensitive [of 0 env_ok "''/r/a.MOV''" "''''" 0 "main_server (\<lambda>p. StatNotExist)" "\<lambda>p. StatNotExist" "''MOV''" "''mov''" "''/r/a''" "''/r/a''"] c m
    by (simp add: os_Stat_def env_ok_def)
  have l3: "strings_ToLower [CHR ''m'', CHR 0xE2, CHR 0x84, CHR 0xAA, CHR ''v''] = strings_ToLower ''mkv''"
  proof -
    have "strings_ToLower [CHR ''m'', CHR 0xE2, CHR 0x84, CHR 0xAA, CHR ''v''] = ''mkv''"
      using ToLower_kelvin by (simp add: ToLower_dot)
    moreover have "strings_ToLower ''mkv'' = ''mkv''"
      by (simp add: strings_ToLower_def to_lower_char_def)
    ultimately show ?thesis by simp
  qed
  have k: "spec_media_class (''/r/a'' @ ''.'' @ [CHR ''m'', CHR 0xE2, CHR 0x84, CHR 0xAA, CHR ''v''])
             = spec_media_class (''/r/a'' @ ''.'' @ ''mkv'')"
    using media_class_case_insensitive [of 0 env_ok "''''" "''''" 0 "main_server (\<lambda>p. StatNotExist)" "\<lambda>p. StatNotExist" "[CHR ''m'', CHR 0xE2, CHR 0x84, CHR 0xAA, CHR ''v'']" "''mkv''" "''/r/a''" "''/r/a''"] l3
    by (simp add: Separator_def)
  have k': "spec_media_class ''/r/a.mkv'' = Some MovieClass"
    by (simp add: spec_media_class_def path_eval class_eval)
  have kg: "fst (generateThumbnail_start env_ok (''/r/a.m'' @ [CHR 0xE2, CHR 0x84, CHR 0xAA] @ ''v'')
            (\<lambda>p. StatNotExist)) = Running Ffmpeg"
    using media_class_case_insensitive [of 0 env_ok "''/r/a.m'' @ [CHR 0xE2, CHR 0x84, CHR 0xAA] @ ''v''" "''''" 0 "main_server (\<lambda>p. StatNotExist)" "\<lambda>p. StatNotExist" "''MOV''" "''mov''" "''/r/a''" "''/r/a''"] k k'
    by (simp add: os_Stat_def env_ok_def)
  show ?thesis using a b c m g k k' kg by simp
qed

section \<open>generateThumbnail\<close>

lemma Clean_not_Nil [simp]: "filepath_Clean p \<noteq> []"
  by (simp add: filepath_Clean_def)

lemma dir_or_ancestor_length: "dir_or_ancestor q d \<Longrightarrow> d \<noteq> [] \<Longrightarrow> length q \<le> length d"
  by (auto simp: dir_or_ancestor_def prefix_def Suc_le_eq)

lemma MkdirAll_thumbnail [simp]:
  "os_MkdirAll (filepath_Dir (getThumbnailPath p)) fs (getThumbnailPath p) = fs (getThumbnailPath p)"
proof -
  have "filepath_Dir (getThumbnailPath p) \<noteq> []" by (simp add: filepath_Dir_def)
  then have "\<not> dir_or_ancestor (getThumbnailPath p) (filepath_Dir (getThumbnailPath p))"
    using dir_or_ancestor_length [of "getThumbnailPath p" "filepath_Dir (getThumbnailPath p)"]
      thumbnailDir_shorter [of p] by auto
  then show ?thesis by (simp add: os_MkdirAll_def)
qed

lemma MkdirAll_StatOk: "fs q = StatOk \<Longrightarrow> os_MkdirAll d fs q = StatOk"
  by (simp add: os_MkdirAll_def)

lemma start_thumbnail:
  "snd (generateThumbnail_start e p fs) (getThumbnailPath p) = fs (getThumbnailPath p)"
  by (simp add: generateThumbnail_start_def Let_def)

lemma start_Finished_None:
  "fst (generateThumbnail_start e p fs) = Finished None \<longleftrightarrow> fs (getThumbnailPath p) = StatOk"
  by (simp add: generateThumbnail_start_def Let_def os_Stat_def)

lemma start_StatOk: "fs q = StatOk \<Longrightarrow> snd (generateThumbnail_start e p fs) q = StatOk"
  by (simp add: generateThumbnail_start_def Let_def MkdirAll_StatOk)

lemma start_Running:
  "fst (generateThumbnail_start e p fs) = Running t \<Longrightarrow> fs (getThumbnailPath p) \<noteq> StatOk"
  by (auto simp: generateThumbnail_start_def Let_def os_Stat_def split: if_splits)

text \<open>
  Claim C8. When the thumbnail of a source already exists, \<open>generateThumbnail\<close> returns
  success and changes nothing (no directory made, no tool run, the file untouched), and a
  request that finds the thumbnail answers with it, again without running a tool and
  without touching the file system, the pending map or the queues.
\<close>
theorem existing_thumbnail_is_kept:
  assumes "os_Stat (files s) (getThumbnailPath p) = StatOk"
  shows "generateThumbnail e p s = (None, s)
         \<and> (i < length (requests s) \<longrightarrow> \<not> crashed s \<longrightarrow> requests s ! i = H_StatThumb p \<longrightarrow>
              (\<exists>s1. step (Request i e) s = Some s1
                 \<and> requests s1 ! i = Responded (ServeFile (getThumbnailPath p))
                 \<and> calls s1 = calls s \<and> files s1 = files s
                 \<and> pendingThumbs s1 = pendingThumbs s
                 \<and> imageThumbnailQueue s1 = imageThumbnailQueue s
                 \<and> movieThumbnailQueue s1 = movieThumbnailQueue s))"
  using assms
  by (simp add: generateThumbnail_def generateThumbnail_start_def step_def Let_def
      os_IsNotExist_def set_request_def)

lemma thumb_beach: "getThumbnailPath ''/r/beach.jpg'' = ''/r/.small/beach.jpg.jpg''"
  by (simp add: path_eval)

text \<open>A server whose thumbnail of \<open>/r/beach.jpg\<close> exists.\<close>

theorem existing_thumbnail_is_kept_witness:
  "generateThumbnail env_ok ''/r/beach.jpg'' cached_state = (None, cached_state)
   \<and> (\<exists>s1. step (Request 0 env_ok) cached_state = Some s1
         \<and> requests s1 ! 0 = Responded (ServeFile ''/r/.small/beach.jpg.jpg'')
         \<and> calls s1 = [])"
proof -
  have h: "os_Stat (files cached_state) (getThumbnailPath ''/r/beach.jpg'') = StatOk"
    by (simp add: thumb_beach cached_state_def main_server_def new_server_def os_Stat_def)
  have r: "0 < length (requests cached_state)" "\<not> crashed cached_state"
    "requests cached_state ! 0 = H_StatThumb ''/r/beach.jpg''" "calls cached_state = []"
    by (simp_all add: cached_state_def main_server_def new_server_def)
  show ?thesis
    using existing_thumbnail_is_kept [OF h, of env_ok 0] r by (auto simp: thumb_beach)
qed

text \<open>
  Claim C6. When \<open>generateThumbnail\<close> returns an error, no thumbnail exists at the
  artifact path afterwards: its \<open>os.Stat\<close> outcome is what it was before, which was not
  success. So a later call of \<open>generateThumbnail\<close> does not take the early return for an
  existing thumbnail, and a later request, after the miss that led to this attempt,
  finds a miss again and goes on to \<open>queueAndWaitForThumbnail\<close>.
\<close>
theorem failed_generation_leaves_no_thumbnail:
  assumes "generateThumbnail e p s = (Some err, s1)"
  shows "os_Stat (files s1) (getThumbnailPath p) \<noteq> StatOk
         \<and> os_Stat (files s1) (getThumbnailPath p) = os_Stat (files s) (getThumbnailPath p)
         \<and> fst (generateThumbnail_start e' p (files s1)) \<noteq> Finished None
         \<and> (os_IsNotExist (os_Stat (files s) (getThumbnailPath p)) \<longrightarrow>
              request_step i e' (H_StatThumb p) s1
                = Some (set_request i (Q_LoadOrStore p (getThumbnailPath p)) s1))"
proof -
  obtain pr fs1 where st: "generateThumbnail_start e p (files s) = (pr, fs1)"
    by (cases "generateThumbnail_start e p (files s)")
  have same: "fs1 (getThumbnailPath p) = files s (getThumbnailPath p)"
    using start_thumbnail [of e p "files s"] st by simp
  have notok: "files s (getThumbnailPath p) \<noteq> StatOk"
  proof
    assume "files s (getThumbnailPath p) = StatOk"
    then have "pr = Finished None" using st start_Finished_None [of e p "files s"] by simp
    then show False using assms st by (simp add: generateThumbnail_def)
  qed
  have keep: "files s1 (getThumbnailPath p) = files s (getThumbnailPath p)"
  proof (cases pr)
    case (Finished r)
    then show ?thesis using assms st same by (auto simp: generateThumbnail_def)
  next
    case (Running t)
    then show ?thesis using assms st same
      by (auto simp: generateThumbnail_def cmd_Run_def Let_def split: if_splits)
  qed
  show ?thesis
    using keep notok start_Finished_None [of e' p "files s1"]
    by (simp add: os_Stat_def os_IsNotExist_def)
qed

lemma thumb_clip: "getThumbnailPath ''/r/clip.mov'' = ''/r/.small/clip.mov.jpg''"
  by (simp add: path_eval)

lemma class_clip: "strings_ToLower (filepath_Ext ''/r/clip.mov'') = ''.mov''"
  by (simp add: path_eval)

text \<open>ffmpeg fails on \<open>/r/clip.mov\<close>.\<close>

theorem failed_generation_leaves_no_thumbnail_witness:
  "(\<exists>s1. generateThumbnail env_tool_fails ''/r/clip.mov'' uncached_state = (Some ErrGenerate, s1)
      \<and> os_Stat (files s1) ''/r/.small/clip.mov.jpg'' = StatNotExist
      \<and> length (calls s1) = 1
      \<and> request_step 0 env_ok (H_StatThumb ''/r/clip.mov'') s1
           = Some (set_request 0 (Q_LoadOrStore ''/r/clip.mov'' ''/r/.small/clip.mov.jpg'') s1))"
proof -
  obtain s1 where g: "generateThumbnail env_tool_fails ''/r/clip.mov'' uncached_state = (Some ErrGenerate, s1)"
    and c: "length (calls s1) = 1"
    by (simp add: generateThumbnail_def generateThumbnail_start_def cmd_Run_def Let_def
        uncached_state_def main_server_def new_server_def env_tool_fails_def os_Stat_def
        thumb_clip class_clip class_eval fs_example_def)
  have m: "os_Stat (files uncached_state) (getThumbnailPath ''/r/clip.mov'') = StatNotExist"
    by (simp add: thumb_clip uncached_state_def main_server_def new_server_def os_Stat_def
        fs_example_def)
  show ?thesis
    using failed_generation_leaves_no_thumbnail [OF g, of env_ok 0] m c g
    by (auto simp: thumb_clip os_IsNotExist_def)
qed

section \<open>Single steps\<close>

lemmas step_eval = step_def set_request_def set_worker_def queue_of_def set_queue_def
  respond_def enqueue_or_fallback_def try_send_def os_Stat_def os_IsNotExist_def
  imageThumbnailWorker_def movieThumbnailWorker_def

lemma request_step_frame:
  assumes "request_step i e pc s = Some s1"
  shows "length (requests s1) = length (requests s)"
    and "j \<noteq> i \<Longrightarrow> requests s1 ! j = requests s ! j"
    and "workers s1 = workers s" and "crashed s1 = crashed s" and "now s1 = now s"
  using assms
  by (cases pc; auto simp: step_eval cmd_Run_def Let_def
      split: if_splits option.splits prod.splits progress.splits mclass.splits)+

lemma timeout_step_frame:
  assumes "timeout_step i pc s = Some s1"
  shows "s1 = set_request i (Responded (InternalServerError ErrTimeout)) s"
  using assms by (cases pc) (auto simp: respond_def split: if_splits)

lemma worker_step_frame:
  assumes "worker_step i e cls pc s = Some s1"
  shows "requests s1 = requests s"
    and "length (workers s1) = length (workers s)"
    and "j \<noteq> i \<Longrightarrow> workers s1 ! j = workers s ! j"
    and "now s1 = now s"
  using assms
  by (cases pc; auto simp: step_eval cmd_Run_def Let_def
      split: if_splits option.splits prod.splits progress.splits mclass.splits list.splits)+

lemma step_requests_other:
  assumes "step ev s = Some s1" and "j < length (requests s)"
    and "requests s1 ! j \<noteq> requests s ! j"
  obtains e where "ev = Request j e" and "request_step j e (requests s ! j) s = Some s1"
  | "ev = Timeout j" and "timeout_step j (requests s ! j) s = Some s1"
proof (cases ev)
  case (Accept p)
  then show ?thesis using assms by (auto simp: step_def nth_append split: if_splits)
next
  case (Request i e)
  then show ?thesis using assms that(1) request_step_frame(2) [of i e "requests s ! i" s s1 j]
    by (cases "i = j") (auto simp: step_def split: if_splits)
next
  case (Timeout i)
  then show ?thesis using assms that(2) timeout_step_frame [of i "requests s ! i" s s1]
    by (cases "i = j") (auto simp: step_def set_request_def split: if_splits)
next
  case (Worker i e)
  then show ?thesis using assms worker_step_frame(1) [of i e _ _ s s1]
    by (auto simp: step_def imageThumbnailWorker_def movieThumbnailWorker_def
        split: if_splits prod.splits mclass.splits)
next
  case (Tick d)
  then show ?thesis using assms by (auto simp: step_def split: if_splits)
qed

lemma error_response_from_queueAndWait:
  assumes "step ev s = Some s1" and "j < length (requests s)"
    and "requests s1 ! j = Responded (InternalServerError err)"
    and "requests s ! j \<noteq> Responded (InternalServerError err)"
  shows "in_queueAndWait (requests s ! j)"
proof -
  have ne: "requests s1 ! j \<noteq> requests s ! j" using assms(3,4) by simp
  from assms(1,2) ne show ?thesis
  proof (cases rule: step_requests_other)
    case (1 e)
    then show ?thesis using assms(2,3)
      by (cases "requests s ! j") (auto simp: step_eval Let_def split: if_splits)
  next
    case 2
    then show ?thesis by (cases "requests s ! j") auto
  qed
qed

lemma enter_queueAndWait_on_miss:
  assumes "step ev s = Some s1" and "j < length (requests s)"
    and "in_queueAndWait (requests s1 ! j)" and "\<not> in_queueAndWait (requests s ! j)"
  shows "\<exists>p. requests s ! j = H_StatThumb p
              \<and> os_IsNotExist (os_Stat (files s) (getThumbnailPath p))"
proof -
  have ne: "requests s1 ! j \<noteq> requests s ! j" using assms(3,4) by auto
  from assms(1,2) ne show ?thesis
  proof (cases rule: step_requests_other)
    case (1 e)
    then show ?thesis using assms(2,3,4)
      by (cases "requests s ! j") (auto simp: step_eval Let_def split: if_splits)
  next
    case 2
    then show ?thesis using assms(4) by (cases "requests s ! j") auto
  qed
qed

text \<open>
  Claim C10. The cache-hit path of \<open>handleThumbnail\<close> has no media-class check: when the
  source exists and its thumbnail exists, the handler answers with the thumbnail file,
  whatever the extension of the source. An error answer can only come out of
  \<open>queueAndWaitForThumbnail\<close>, which a request enters only after finding no thumbnail.
\<close>
theorem cache_hit_skips_class_check:
  "(i < length (requests s) \<longrightarrow> \<not> crashed s \<longrightarrow> requests s ! i = H_Stat fullPath \<longrightarrow>
      \<not> os_IsNotExist (os_Stat (files s) fullPath) \<longrightarrow>
      \<not> os_IsNotExist (os_Stat (files s) (getThumbnailPath fullPath)) \<longrightarrow>
      exec [Request i e, Request i e'] s
        = Some (set_request i (Responded (ServeFile (getThumbnailPath fullPath))) s))
   \<and> (step ev s = Some s1 \<longrightarrow> j < length (requests s) \<longrightarrow>
        requests s1 ! j = Responded (InternalServerError err) \<longrightarrow>
        requests s ! j \<noteq> Responded (InternalServerError err) \<longrightarrow>
        in_queueAndWait (requests s ! j))
   \<and> (step ev s = Some s1 \<longrightarrow> j < length (requests s) \<longrightarrow>
        in_queueAndWait (requests s1 ! j) \<longrightarrow> \<not> in_queueAndWait (requests s ! j) \<longrightarrow>
        (\<exists>p. requests s ! j = H_StatThumb p
              \<and> os_IsNotExist (os_Stat (files s) (getThumbnailPath p))))"
proof (intro conjI impI)
  assume "i < length (requests s)" "\<not> crashed s" "requests s ! i = H_Stat fullPath"
    "\<not> os_IsNotExist (os_Stat (files s) fullPath)"
    "\<not> os_IsNotExist (os_Stat (files s) (getThumbnailPath fullPath))"
  then show "exec [Request i e, Request i e'] s
        = Some (set_request i (Responded (ServeFile (getThumbnailPath fullPath))) s)"
    by (simp add: step_def set_request_def Let_def)
qed (blast intro: error_response_from_queueAndWait dest: enter_queueAndWait_on_miss)+

lemma main_server_eval:
  "main_server f =
     \<lparr>files = f, calls = [], now = 0, pendingThumbs = Map.empty, closed = {}, chans = 0,
      imageThumbnailQueue = \<lparr>buf = [], cap = 250\<rparr>,
      movieThumbnailQueue = \<lparr>buf = [], cap = 250\<rparr>,
      requests = [],
      workers = [(ImageClass, W_Recv), (ImageClass, W_Recv), (MovieClass, W_Recv)],
      crashed = False\<rparr>"
  by (simp add: main_server_def new_server_def numeral_2_eq_2)

lemma thumb_notes: "getThumbnailPath ''/r/notes.txt'' = ''/r/.small/notes.txt.jpg''"
  by (simp add: path_eval)

lemma class_notes: "strings_ToLower (filepath_Ext ''/r/notes.txt'') = ''.txt''"
  by (simp add: path_eval)

text \<open>\<open>/r/notes.txt\<close> belongs to neither class, and its thumbnail path holds a file.\<close>

theorem cache_hit_skips_class_check_witness:
  "spec_media_class ''/r/notes.txt'' = None
   \<and> exec [Request 0 env_ok, Request 0 env_ok] hit_state
       = Some (set_request 0 (Responded (ServeFile ''/r/.small/notes.txt.jpg'')) hit_state)"
proof -
  have h: "0 < length (requests hit_state)" "\<not> crashed hit_state"
    "requests hit_state ! 0 = H_Stat ''/r/notes.txt''"
    "\<not> os_IsNotExist (os_Stat (files hit_state) ''/r/notes.txt'')"
    "\<not> os_IsNotExist (os_Stat (files hit_state) (getThumbnailPath ''/r/notes.txt''))"
    by (simp_all add: hit_state_def main_server_eval thumb_notes os_IsNotExist_def os_Stat_def
        fs_example_def)
  have c: "spec_media_class ''/r/notes.txt'' = None"
    by (simp add: spec_media_class_def class_notes class_eval)
  show ?thesis
    using cache_hit_skips_class_check [of 0 hit_state "''/r/notes.txt''" env_ok env_ok] h c
    by (simp add: thumb_notes)
qed

text \<open>
  Claim C5. A waiting caller waits on the \<open>done\<close> channel with a timer of 30 seconds,
  set when the wait begins (after joining an entry, or after queueing the path). It
  cannot go on before the channel is closed or the deadline has passed. When the channel
  is closed it looks for the thumbnail again: it answers with the file if it is there
  and with an error if not. When the deadline has passed it returns the timeout error,
  and the pending map, the channels, the queues, the workers and the files stay as they are.
\<close>
theorem waiting_caller:
  "(i < length (requests s) \<longrightarrow> \<not> crashed s \<longrightarrow> requests s ! i = Q_Wait t c d \<longrightarrow>
      (c \<in> closed s \<longrightarrow> \<not> os_IsNotExist (os_Stat (files s) t) \<longrightarrow>
         step (Request i e) s = Some (set_request i (Responded (ServeFile t)) s))
    \<and> (c \<in> closed s \<longrightarrow> os_IsNotExist (os_Stat (files s) t) \<longrightarrow>
         step (Request i e) s
           = Some (set_request i (Responded (InternalServerError ErrNotFound)) s))
    \<and> (c \<notin> closed s \<longrightarrow> step (Request i e) s = None)
    \<and> (now s < d \<longrightarrow> step (Timeout i) s = None)
    \<and> (d \<le> now s \<longrightarrow>
         (\<exists>s1. step (Timeout i) s = Some s1
            \<and> requests s1 = (requests s)[i := Responded (InternalServerError ErrTimeout)]
            \<and> pendingThumbs s1 = pendingThumbs s \<and> closed s1 = closed s
            \<and> imageThumbnailQueue s1 = imageThumbnailQueue s
            \<and> movieThumbnailQueue s1 = movieThumbnailQueue s
            \<and> workers s1 = workers s \<and> files s1 = files s \<and> calls s1 = calls s)))
   \<and> (i < length (requests s) \<longrightarrow> \<not> crashed s \<longrightarrow> requests s ! i = Q_LoadOrStore p t \<longrightarrow>
        pendingThumbs s t = Some c \<longrightarrow>
        (\<exists>s1. step (Request i e) s = Some s1
           \<and> requests s1 ! i = Q_Wait t c (now s + 30 * 1000000000)))
   \<and> (i < length (requests s) \<longrightarrow> \<not> crashed s \<longrightarrow> requests s ! i = Q_Route p t c \<longrightarrow>
        spec_media_class p = Some cls \<longrightarrow> length (buf (queue_of cls s)) < cap (queue_of cls s) \<longrightarrow>
        (\<exists>s1. step (Request i e) s = Some s1
           \<and> requests s1 ! i = Q_Wait t c (now s + 30 * 1000000000)))"
proof (intro conjI impI)
  assume "i < length (requests s)" "\<not> crashed s" "requests s ! i = Q_Route p t c"
    "spec_media_class p = Some cls" "length (buf (queue_of cls s)) < cap (queue_of cls s)"
  then show "\<exists>s1. step (Request i e) s = Some s1
           \<and> requests s1 ! i = Q_Wait t c (now s + 30 * 1000000000)"
    using route_by_class [of i e p t c s]
    by (cases cls) (simp_all add: step_eval wait_timeout_def time_Second_def)
qed (simp_all add: step_eval wait_timeout_def time_Second_def)

text \<open>A caller waiting for \<open>/r/clip.mov\<close>, a caller about to join, a caller about to queue.\<close>

theorem waiting_caller_witness:
  "step (Request 0 env_ok) (waiting_state {0} (fs_example(''/r/.small/clip.mov.jpg'' := StatOk)))
     = Some (set_request 0 (Responded (ServeFile ''/r/.small/clip.mov.jpg''))
               (waiting_state {0} (fs_example(''/r/.small/clip.mov.jpg'' := StatOk))))
   \<and> step (Request 0 env_ok) (waiting_state {0} fs_example)
       = Some (set_request 0 (Responded (InternalServerError ErrNotFound))
                 (waiting_state {0} fs_example))
   \<and> step (Request 0 env_ok) (waiting_state {} fs_example) = None
   \<and> step (Timeout 0) (waiting_state {} fs_example) = None
   \<and> (\<exists>s1. step (Timeout 0) ((waiting_state {} fs_example)\<lparr>now := 30000000000\<rparr>) = Some s1
         \<and> requests s1 = [Responded (InternalServerError ErrTimeout)]
         \<and> pendingThumbs s1 ''/r/.small/clip.mov.jpg'' = Some 0)
   \<and> (\<exists>s1. step (Request 0 env_ok) joining_state = Some s1
         \<and> requests s1 ! 0 = Q_Wait ''/r/.small/clip.mov.jpg'' 0 30000000005)
   \<and> (\<exists>s1. step (Request 0 env_ok) routing_state = Some s1
         \<and> requests s1 ! 0 = Q_Wait ''/r/.small/clip.mov.jpg'' 0 30000000007)"
proof -
  let ?t = "''/r/.small/clip.mov.jpg''"
  have w: "0 < length (requests (waiting_state cl f))" "\<not> crashed (waiting_state cl f)"
    "requests (waiting_state cl f) ! 0 = Q_Wait ?t 0 30000000000"
    "closed (waiting_state cl f) = cl" "files (waiting_state cl f) = f"
    "now (waiting_state cl f) = 0" "requests (waiting_state cl f) = [Q_Wait ?t 0 30000000000]"
    "pendingThumbs (waiting_state cl f) ?t = Some 0"
    for cl f by (simp_all add: waiting_state_def main_server_eval)
  have f: "os_IsNotExist (os_Stat fs_example ?t)"
    "\<not> os_IsNotExist (os_Stat (fs_example(?t := StatOk)) ?t)"
    by (simp_all add: os_IsNotExist_def os_Stat_def fs_example_def)
  have j: "0 < length (requests joining_state)" "\<not> crashed joining_state"
    "requests joining_state ! 0 = Q_LoadOrStore ''/r/clip.mov'' ?t"
    "pendingThumbs joining_state ?t = Some 0" "now joining_state = 5"
    by (simp_all add: joining_state_def main_server_eval)
  have r: "0 < length (requests routing_state)" "\<not> crashed routing_state"
    "requests routing_state ! 0 = Q_Route ''/r/clip.mov'' ?t 0"
    "now routing_state = 7"
    "length (buf (queue_of MovieClass routing_state)) < cap (queue_of MovieClass routing_state)"
    by (simp_all add: routing_state_def main_server_eval queue_of_def)
  have m: "spec_media_class ''/r/clip.mov'' = Some MovieClass"
    by (simp add: spec_media_class_def class_clip class_eval)
  have 1: "step (Request 0 env_ok) (waiting_state {0} (fs_example(?t := StatOk)))
     = Some (set_request 0 (Responded (ServeFile ?t)) (waiting_state {0} (fs_example(?t := StatOk))))"
    using waiting_caller [of 0 "waiting_state {0} (fs_example(?t := StatOk))" ?t 0 30000000000 env_ok]
      w f by simp
  have 2: "step (Request 0 env_ok) (waiting_state {0} fs_example)
       = Some (set_request 0 (Responded (InternalServerError ErrNotFound)) (waiting_state {0} fs_example))"
    using waiting_caller [of 0 "waiting_state {0} fs_example" ?t 0 30000000000 env_ok]
      w f by simp
  have 3: "step (Request 0 env_ok) (waiting_state {} fs_example) = None"
    "step (Timeout 0) (waiting_state {} fs_example) = None"
    using waiting_caller [of 0 "waiting_state {} fs_example" ?t 0 30000000000 env_ok]
      w f by simp_all
  have 4: "\<exists>s1. step (Timeout 0) ((waiting_state {} fs_example)\<lparr>now := 30000000000\<rparr>) = Some s1
         \<and> requests s1 = [Responded (InternalServerError ErrTimeout)]
         \<and> pendingThumbs s1 ?t = Some 0"
  proof -
    obtain s1 where "step (Timeout 0) ((waiting_state {} fs_example)\<lparr>now := 30000000000\<rparr>) = Some s1"
      and "requests s1 = [Responded (InternalServerError ErrTimeout)]"
      and "pendingThumbs s1 = pendingThumbs (waiting_state {} fs_example)"
      using waiting_caller [of 0 "(waiting_state {} fs_example)\<lparr>now := 30000000000\<rparr>" ?t 0 30000000000 env_ok]
        w by auto
    then show ?thesis using w(8) by simp
  qed
  have 5: "\<exists>s1. step (Request 0 env_ok) joining_state = Some s1
         \<and> requests s1 ! 0 = Q_Wait ?t 0 30000000005"
    using waiting_caller [of 0 joining_state ?t 0 _ env_ok "''/r/clip.mov''"] j by simp
  have 6: "\<exists>s1. step (Request 0 env_ok) routing_state = Some s1
         \<and> requests s1 ! 0 = Q_Wait ?t 0 30000000007"
    using waiting_caller [of 0 routing_state ?t 0 _ env_ok "''/r/clip.mov''" MovieClass] r m
    by simp
  show ?thesis using 1 2 3 4 5 6 by blast
qed

section \<open>Traces\<close>

lemmas trace_eval = step_eval wait_timeout_def time_Second_def main_server_eval fs_example_def
  env_ok_def env_tool_fails_def Let_def

text \<open>
  Claim C3, at the request for \<open>/r/notes.txt\<close> on a server with nothing pending. The
  request stores a new entry in the pending map before it looks at the extension, and
  returns the unsupported-type error with the entry still there and its channel open;
  nothing is queued. A second request for the same file then joins that entry, cannot go
  on, and returns the timeout error once 30 seconds have passed.
\<close>
theorem unsupported_request_leaves_pending_entry:
  "(\<exists>s. exec notes_trace (main_server fs_example) = Some s
       \<and> requests s = [Responded (InternalServerError ErrUnsupported)]
       \<and> pendingThumbs s ''/r/.small/notes.txt.jpg'' = Some 0
       \<and> 0 \<notin> closed s
       \<and> buf (imageThumbnailQueue s) = [] \<and> buf (movieThumbnailQueue s) = [])
   \<and> (\<exists>s. exec notes_again_trace (main_server fs_example) = Some s
       \<and> requests s ! 1 = Q_Wait ''/r/.small/notes.txt.jpg'' 0 30000000000
       \<and> step (Request 1 env_ok) s = None
       \<and> step (Timeout 1) s = None
       \<and> map_option (\<lambda>s1. requests s1 ! 1) (exec [Tick 30000000000, Timeout 1] s)
            = Some (Responded (InternalServerError ErrTimeout)))"
  by (simp add: notes_trace_def notes_again_trace_def trace_eval thumb_notes class_notes class_eval)

section \<open>The invariant\<close>

lemma sum_list_update_raw:
  fixes ns :: "nat list"
  shows "i < length ns \<Longrightarrow> sum_list (ns[i := v]) + ns ! i = sum_list ns + v"
proof (induction ns arbitrary: i)
  case Nil
  then show ?case by simp
next
  case (Cons n ns)
  then show ?case by (cases i) auto
qed

lemma sum_list_update_nat:
  fixes f :: "'a \<Rightarrow> nat"
  shows "i < length xs \<Longrightarrow> sum_list (map f (xs[i := y])) + f (xs ! i) = sum_list (map f xs) + f y"
  using sum_list_update_raw [of i "map f xs" "f y"] by (simp add: map_update)

lemma sum_list_two_nat:
  fixes f :: "'a \<Rightarrow> nat"
  assumes "i < length xs" "j < length xs" "i \<noteq> j"
  shows "f (xs ! i) + f (xs ! j) \<le> sum_list (map f xs)"
proof -
  let ?ns = "map f xs"
  have "(?ns[i := 0]) ! j \<le> sum_list (?ns[i := 0])"
    using assms(2) by (intro elem_le_sum_list) simp
  then have "f (xs ! j) \<le> sum_list (?ns[i := 0])" using assms by simp
  then show ?thesis using sum_list_update_raw [of i ?ns 0] assms(1) by simp
qed

lemma sum_list_one_nat:
  fixes f :: "'a \<Rightarrow> nat"
  shows "i < length xs \<Longrightarrow> f (xs ! i) \<le> sum_list (map f xs)"
  using elem_le_sum_list [of i "map f xs"] by simp

lemma owners_set_request:
  "i < length (requests s) \<Longrightarrow>
     owners (set_request i pc s) k + request_owns k (requests s ! i)
       = owners s k + request_owns k pc"
  using sum_list_update_nat [of i "requests s" "request_owns k" pc]
  by (simp add: owners_def set_request_def)

lemma owners_set_worker:
  "i < length (workers s) \<Longrightarrow>
     owners (set_worker i cls pc s) k + worker_owns k (workers s ! i)
       = owners s k + worker_owns k (cls, pc)"
  using sum_list_update_nat [of i "workers s" "worker_owns k" "(cls, pc)"]
  by (simp add: owners_def set_worker_def)

lemma request_owner_excludes:
  assumes "owners s k \<le> 1" and "i < length (requests s)"
    and "request_owns k (requests s ! i) = 1"
  shows "j < length (requests s) \<Longrightarrow> j \<noteq> i \<Longrightarrow> request_owns k (requests s ! j) = 0"
    and "w < length (workers s) \<Longrightarrow> worker_owns k (workers s ! w) = 0"
    and "queued k (imageThumbnailQueue s) = 0" and "queued k (movieThumbnailQueue s) = 0"
proof -
  have one: "request_owns k (requests s ! i) \<le> sum_list (map (request_owns k) (requests s))"
    using assms(2) by (rule sum_list_one_nat)
  show "j < length (requests s) \<Longrightarrow> j \<noteq> i \<Longrightarrow> request_owns k (requests s ! j) = 0"
    using sum_list_two_nat [of i "requests s" j "request_owns k"] assms
    by (simp add: owners_def)
  show "w < length (workers s) \<Longrightarrow> worker_owns k (workers s ! w) = 0"
    using sum_list_one_nat [of w "workers s" "worker_owns k"] one assms
    by (simp add: owners_def)
  show "queued k (imageThumbnailQueue s) = 0" "queued k (movieThumbnailQueue s) = 0"
    using one assms by (simp_all add: owners_def)
qed

lemma worker_owner_excludes:
  assumes "owners s k \<le> 1" and "w < length (workers s)"
    and "worker_owns k (workers s ! w) = 1"
  shows "j < length (requests s) \<Longrightarrow> request_owns k (requests s ! j) = 0"
    and "v < length (workers s) \<Longrightarrow> v \<noteq> w \<Longrightarrow> worker_owns k (workers s ! v) = 0"
    and "queued k (imageThumbnailQueue s) = 0" and "queued k (movieThumbnailQueue s) = 0"
proof -
  have one: "worker_owns k (workers s ! w) \<le> sum_list (map (worker_owns k) (workers s))"
    using assms(2) by (rule sum_list_one_nat)
  show "j < length (requests s) \<Longrightarrow> request_owns k (requests s ! j) = 0"
    using sum_list_one_nat [of j "requests s" "request_owns k"] one assms
    by (simp add: owners_def)
  show "v < length (workers s) \<Longrightarrow> v \<noteq> w \<Longrightarrow> worker_owns k (workers s ! v) = 0"
    using sum_list_two_nat [of w "workers s" v "worker_owns k"] assms
    by (simp add: owners_def)
  show "queued k (imageThumbnailQueue s) = 0" "queued k (movieThumbnailQueue s) = 0"
    using one assms by (simp_all add: owners_def)
qed

lemma server_invD:
  assumes "server_inv s"
  shows "\<not> crashed s" and "owners s k \<le> 1" and "pendingThumbs s k = None \<Longrightarrow> owners s k = 0"
    and "i < length (requests s) \<Longrightarrow> request_ok s (requests s ! i)"
    and "w < length (workers s) \<Longrightarrow> worker_ok s (snd (workers s ! w))"
    and "pending_ok s" and "closers_distinct s" and "c \<in> closed s \<Longrightarrow> c < chans s"
  using assms by (simp_all add: server_inv_def)

lemma pending_okD:
  assumes "pending_ok s" and "pendingThumbs s t = Some c"
  shows "c < chans s" and "c \<in> closed s \<Longrightarrow> deleting s t"
    and "pendingThumbs s t' = Some c \<Longrightarrow> t' = t"
  using assms by (auto simp: pending_ok_def)

text \<open>What the invariant reads of a state.\<close>

lemma owners_cong:
  "requests s1 = requests s \<Longrightarrow> workers s1 = workers s \<Longrightarrow>
   imageThumbnailQueue s1 = imageThumbnailQueue s \<Longrightarrow>
   movieThumbnailQueue s1 = movieThumbnailQueue s \<Longrightarrow> owners s1 k = owners s k"
  by (simp add: owners_def)

lemma request_ok_cong:
  "pendingThumbs s1 = pendingThumbs s \<Longrightarrow> closed s1 = closed s \<Longrightarrow>
   workers s1 = workers s \<Longrightarrow> request_ok s1 pc = request_ok s pc"
  by (cases pc) (simp_all add: closing_def)

lemma worker_ok_cong:
  "pendingThumbs s1 = pendingThumbs s \<Longrightarrow> closed s1 = closed s \<Longrightarrow>
   chans s1 = chans s \<Longrightarrow> worker_ok s1 pc = worker_ok s pc"
  by (cases pc) simp_all

lemma server_inv_cong:
  assumes "requests s1 = requests s" "workers s1 = workers s"
    "imageThumbnailQueue s1 = imageThumbnailQueue s"
    "movieThumbnailQueue s1 = movieThumbnailQueue s"
    "pendingThumbs s1 = pendingThumbs s" "closed s1 = closed s" "chans s1 = chans s"
    "crashed s1 = crashed s"
  shows "server_inv s1 = server_inv s"
  using assms owners_cong [OF assms(1-4)] request_ok_cong [OF assms(5,6,2)]
    worker_ok_cong [OF assms(5,6,7)]
  by (simp add: server_inv_def pending_ok_def deleting_def closers_distinct_def)

lemma server_inv_files [simp]: "server_inv (s\<lparr>files := f\<rparr>) = server_inv s"
  by (rule server_inv_cong) simp_all

lemma server_inv_calls [simp]: "server_inv (s\<lparr>calls := cs\<rparr>) = server_inv s"
  by (rule server_inv_cong) simp_all

lemma server_inv_now [simp]: "server_inv (s\<lparr>now := n\<rparr>) = server_inv s"
  by (rule server_inv_cong) simp_all

text \<open>A request moves on without touching the shared state, keeping or giving up what it owns.\<close>

lemma deleting_set_request:
  assumes i: "i < length (requests s)"
    and old: "\<And>p err. requests s ! i \<noteq> Q_Delete p t err"
    and new: "\<And>p err. pc \<noteq> Q_Delete p t err"
  shows "deleting (set_request i pc s) t = deleting s t"
proof
  assume "deleting (set_request i pc s) t"
  then obtain j p err where j: "j < length (requests s)"
    and at: "(requests s)[i := pc] ! j = Q_Delete p t err"
    by (auto simp: deleting_def set_request_def)
  then have "j \<noteq> i" using new i by auto
  then show "deleting s t" using j at by (auto simp: deleting_def)
next
  assume "deleting s t"
  then obtain j p err where j: "j < length (requests s)"
    and at: "requests s ! j = Q_Delete p t err"
    by (auto simp: deleting_def)
  then have "j \<noteq> i" using old by auto
  then have "(requests s)[i := pc] ! j = Q_Delete p t err" using at by simp
  then show "deleting (set_request i pc s) t"
    using j by (auto simp: deleting_def set_request_def)
qed

lemma inv_request_local:
  assumes inv: "server_inv s" and i: "i < length (requests s)"
    and own: "\<And>k. request_owns k pc \<le> request_owns k (requests s ! i)"
    and ok: "request_ok s pc"
    and nd: "\<And>p t err. requests s ! i \<noteq> Q_Delete p t err"
    and nd': "\<And>p t err. pc \<noteq> Q_Delete p t err"
  shows "server_inv (set_request i pc s)"
proof -
  let ?s = "set_request i pc s"
  have fields: "pendingThumbs ?s = pendingThumbs s" "closed ?s = closed s"
    "workers ?s = workers s" "chans ?s = chans s" "crashed ?s = crashed s"
    "length (requests ?s) = length (requests s)"
    by (simp_all add: set_request_def)
  have le: "owners ?s k \<le> owners s k" for k
    using owners_set_request [OF i, of pc k] own [of k] by simp
  have del: "deleting ?s t = deleting s t" for t
    using deleting_set_request [OF i] nd nd' by simp
  have 1: "\<forall>k. owners ?s k \<le> 1" using le server_invD(2) [OF inv] by (meson le_trans)
  have 2: "\<forall>k. pendingThumbs ?s k = None \<longrightarrow> owners ?s k = 0"
    using le server_invD(3) [OF inv] fields by (metis le_zero_eq)
  have 3: "\<forall>j<length (requests ?s). request_ok ?s (requests ?s ! j)"
    using server_invD(4) [OF inv] ok i request_ok_cong [of ?s s] fields
    by (auto simp: set_request_def nth_list_update)
  have 4: "\<forall>w<length (workers ?s). worker_ok ?s (snd (workers ?s ! w))"
    using server_invD(5) [OF inv] worker_ok_cong [of ?s s] fields by simp
  have 5: "pending_ok ?s"
    using server_invD(6) [OF inv] del fields by (simp add: pending_ok_def)
  have 6: "closers_distinct ?s"
    using server_invD(7) [OF inv] fields by (simp add: closers_distinct_def)
  show ?thesis
    using 1 2 3 4 5 6 server_invD(1,8) [OF inv] fields by (simp add: server_inv_def)
qed

text \<open>A worker moves on without touching the shared state.\<close>

lemma closing_set_worker:
  assumes w: "w < length (workers s)"
    and old: "snd (workers s ! w) \<noteq> W_Close c" and new: "pc \<noteq> W_Close c"
  shows "closing (set_worker w cls pc s) c = closing s c"
proof
  assume "closing (set_worker w cls pc s) c"
  then obtain v where v: "v < length (workers s)"
    and at: "snd ((workers s)[w := (cls, pc)] ! v) = W_Close c"
    by (auto simp: closing_def set_worker_def)
  then have "v \<noteq> w" using new w by auto
  then show "closing s c" using v at by (auto simp: closing_def)
next
  assume "closing s c"
  then obtain v where v: "v < length (workers s)" and at: "snd (workers s ! v) = W_Close c"
    by (auto simp: closing_def)
  then have "v \<noteq> w" using old by auto
  then have "snd ((workers s)[w := (cls, pc)] ! v) = W_Close c" using at by simp
  then show "closing (set_worker w cls pc s) c"
    using v by (auto simp: closing_def set_worker_def)
qed

lemma request_ok_closing:
  assumes "pendingThumbs s1 = pendingThumbs s" "closed s1 = closed s"
    and "\<And>c. closing s1 c = closing s c"
  shows "request_ok s1 pc = request_ok s pc"
  using assms by (cases pc) simp_all

lemma inv_worker_local:
  assumes inv: "server_inv s" and w: "w < length (workers s)"
    and own: "\<And>k. worker_owns k (cls, pc) \<le> worker_owns k (workers s ! w)"
    and old: "\<And>c. snd (workers s ! w) \<noteq> W_Close c" and new: "\<And>c. pc \<noteq> W_Close c"
  shows "server_inv (set_worker w cls pc s)"
proof -
  let ?s = "set_worker w cls pc s"
  have fields: "pendingThumbs ?s = pendingThumbs s" "closed ?s = closed s"
    "requests ?s = requests s" "chans ?s = chans s" "crashed ?s = crashed s"
    "length (workers ?s) = length (workers s)"
    by (simp_all add: set_worker_def)
  have le: "owners ?s k \<le> owners s k" for k
    using owners_set_worker [OF w, of cls pc k] own [of k] by simp
  have cl: "closing ?s c = closing s c" for c
    using closing_set_worker [OF w old new] by simp
  have 1: "\<forall>k. owners ?s k \<le> 1" using le server_invD(2) [OF inv] by (meson le_trans)
  have 2: "\<forall>k. pendingThumbs ?s k = None \<longrightarrow> owners ?s k = 0"
    using le server_invD(3) [OF inv] fields by (metis le_zero_eq)
  have 3: "\<forall>j<length (requests ?s). request_ok ?s (requests ?s ! j)"
    using server_invD(4) [OF inv] request_ok_closing [of ?s s] fields cl by simp
  have 4: "\<forall>v<length (workers ?s). worker_ok ?s (snd (workers ?s ! v))"
  proof (intro allI impI)
    fix v assume "v < length (workers ?s)"
    then have v: "v < length (workers s)" using fields by simp
    show "worker_ok ?s (snd (workers ?s ! v))"
    proof (cases "v = w")
      case True
      then show ?thesis using w new by (cases pc) (auto simp: set_worker_def)
    next
      case False
      then show ?thesis
        using server_invD(5) [OF inv v] worker_ok_cong [of ?s s] fields
        by (simp add: set_worker_def)
    qed
  qed
  have 5: "pending_ok ?s"
    using server_invD(6) [OF inv] fields by (simp add: pending_ok_def deleting_def)
  have 6: "closers_distinct ?s"
    unfolding closers_distinct_def
  proof (intro allI impI)
    fix i j c
    assume a: "i < length (workers ?s)" "j < length (workers ?s)" "i \<noteq> j"
      "snd (workers ?s ! i) = W_Close c"
    then have "i \<noteq> w" using new w by (auto simp: set_worker_def)
    show "snd (workers ?s ! j) \<noteq> W_Close c"
    proof (cases "j = w")
      case True
      then show ?thesis using new w by (simp add: set_worker_def)
    next
      case False
      then show ?thesis
        using server_invD(7) [OF inv] a \<open>i \<noteq> w\<close>
        by (auto simp: closers_distinct_def set_worker_def)
    qed
  qed
  show ?thesis
    using 1 2 3 4 5 6 server_invD(1,8) [OF inv] fields by (simp add: server_inv_def)
qed

text \<open>A new request arrives.\<close>

lemma inv_accept:
  assumes inv: "server_inv s"
  shows "server_inv (s\<lparr>requests := requests s @ [H_Stat p]\<rparr>)"
proof -
  let ?s = "s\<lparr>requests := requests s @ [H_Stat p]\<rparr>"
  have own: "owners ?s k = owners s k" for k by (simp add: owners_def)
  have ok: "request_ok ?s pc = request_ok s pc" for pc
    by (rule request_ok_cong) simp_all
  have wok: "worker_ok ?s pc = worker_ok s pc" for pc
    by (rule worker_ok_cong) simp_all
  have del: "deleting ?s t" if d: "deleting s t" for t
  proof -
    obtain j q err where "j < length (requests s)" "requests s ! j = Q_Delete q t err"
      using d by (auto simp: deleting_def)
    then have "j < length (requests ?s)" "requests ?s ! j = Q_Delete q t err"
      by (simp_all add: nth_append)
    then show ?thesis unfolding deleting_def by blast
  qed
  have 3: "\<forall>j<length (requests ?s). request_ok ?s (requests ?s ! j)"
    using server_invD(4) [OF inv] ok by (auto simp: nth_append less_Suc_eq)
  have 5: "pending_ok ?s"
    using server_invD(6) [OF inv] del by (simp add: pending_ok_def)
  show ?thesis
    using own wok 3 5 server_invD(1,2,3,5,7,8) [OF inv]
    by (simp add: server_inv_def closers_distinct_def)
qed

text \<open>More channels have been made.\<close>

lemma inv_chans:
  assumes inv: "server_inv s"
  shows "server_inv (s\<lparr>chans := Suc (chans s)\<rparr>)"
proof -
  let ?s = "s\<lparr>chans := Suc (chans s)\<rparr>"
  have own: "owners ?s k = owners s k" for k by (simp add: owners_def)
  have ok: "request_ok ?s pc = request_ok s pc" for pc
    by (cases pc) (simp_all add: closing_def)
  have wok: "worker_ok s pc \<Longrightarrow> worker_ok ?s pc" for pc
    by (cases pc) simp_all
  have 5: "pending_ok ?s"
    using server_invD(6) [OF inv] by (auto simp: pending_ok_def deleting_def less_Suc_eq)
  show ?thesis
    using own ok wok 5 server_invD(1,2,3,4,5,7,8) [OF inv]
    by (auto simp: server_inv_def closers_distinct_def less_Suc_eq)
qed

text \<open>\<open>LoadOrStore\<close> finds no entry and stores a new channel.\<close>

lemma inv_load_start:
  assumes inv: "server_inv s" and i: "i < length (requests s)"
    and at: "requests s ! i = Q_LoadOrStore p t" and none: "pendingThumbs s t = None"
  shows "server_inv (set_request i (Q_Route p t (chans s))
           (s\<lparr>chans := Suc (chans s), pendingThumbs := (pendingThumbs s)(t \<mapsto> chans s)\<rparr>))"
proof -
  let ?c = "chans s"
  let ?m = "s\<lparr>chans := Suc (chans s), pendingThumbs := (pendingThumbs s)(t \<mapsto> chans s)\<rparr>"
  let ?s = "set_request i (Q_Route p t ?c) ?m"
  have t: "t = getThumbnailPath p" using server_invD(4) [OF inv i] at by simp
  have fresh: "?c \<notin> closed s" using server_invD(8) [OF inv, of ?c] by auto
  have below: "pendingThumbs s t' = Some c \<Longrightarrow> c < ?c" for t' c
    using pending_okD(1) [OF server_invD(6) [OF inv]] by simp
  have own: "owners ?s k = owners s k + (if t = k then 1 else 0)" for k
    using owners_set_request [of i ?m "Q_Route p t ?c" k] i at
      owners_cong [of ?m s k] by simp
  have 1: "\<forall>k. owners ?s k \<le> 1"
    using own server_invD(2,3) [OF inv] none by auto
  have 2: "\<forall>k. pendingThumbs ?s k = None \<longrightarrow> owners ?s k = 0"
    using own server_invD(3) [OF inv] by (auto simp: set_request_def)
  have other: "request_ok ?s pc" if ok: "request_ok s pc" for pc
    using ok none by (cases pc) (auto simp: set_request_def closing_def)
  have 3: "\<forall>j<length (requests ?s). request_ok ?s (requests ?s ! j)"
  proof (intro allI impI)
    fix j assume "j < length (requests ?s)"
    then have j: "j < length (requests s)" by (simp add: set_request_def)
    show "request_ok ?s (requests ?s ! j)"
    proof (cases "j = i")
      case True
      then show ?thesis using i t fresh by (simp add: set_request_def)
    next
      case False
      then show ?thesis using other [OF server_invD(4) [OF inv j]] by (simp add: set_request_def)
    qed
  qed
  have 4: "\<forall>w<length (workers ?s). worker_ok ?s (snd (workers ?s ! w))"
  proof (intro allI impI)
    fix w assume "w < length (workers ?s)"
    then have "worker_ok s (snd (workers s ! w))"
      using server_invD(5) [OF inv, of w] by (simp add: set_request_def)
    then show "worker_ok ?s (snd (workers ?s ! w))"
      by (cases "snd (workers s ! w)") (auto simp: set_request_def)
  qed
  have del: "deleting ?s t'" if d: "deleting s t'" for t'
  proof -
    obtain j q err where j: "j < length (requests s)" "requests s ! j = Q_Delete q t' err"
      using d by (auto simp: deleting_def)
    then have "j \<noteq> i" using at by auto
    then have "requests ?s ! j = Q_Delete q t' err" using j by (simp add: set_request_def)
    then show ?thesis using j unfolding deleting_def by (auto simp: set_request_def)
  qed
  have 5: "pending_ok ?s"
    unfolding pending_ok_def
  proof (intro allI impI)
    fix t' c assume p: "pendingThumbs ?s t' = Some c"
    show "c < chans ?s \<and> (c \<in> closed ?s \<longrightarrow> deleting ?s t')
          \<and> (\<forall>t''. pendingThumbs ?s t'' = Some c \<longrightarrow> t'' = t')"
    proof (cases "t' = t")
      case True
      then have c: "c = ?c" using p by (simp add: set_request_def)
      show ?thesis using c True fresh below by (auto simp: set_request_def)
    next
      case False
      then have old: "pendingThumbs s t' = Some c" using p by (simp add: set_request_def)
      have "c \<in> closed s \<longrightarrow> deleting ?s t'"
        using pending_okD(2) [OF server_invD(6) [OF inv] old] del by blast
      moreover have "\<forall>t''. pendingThumbs ?s t'' = Some c \<longrightarrow> t'' = t'"
        using pending_okD(3) [OF server_invD(6) [OF inv] old] below [OF old]
        by (auto simp: set_request_def)
      ultimately show ?thesis using below [OF old] by (simp add: set_request_def)
    qed
  qed
  have 6: "closers_distinct ?s"
    using server_invD(7) [OF inv] by (simp add: closers_distinct_def set_request_def)
  have 7: "\<forall>c\<in>closed ?s. c < chans ?s"
    using server_invD(8) [OF inv] by (auto simp: set_request_def less_Suc_eq)
  show ?thesis
    using 1 2 3 4 5 6 7 server_invD(1) [OF inv]
    by (simp add: server_inv_def) (simp add: set_request_def)
qed


text \<open>The path goes onto its queue and the request starts to wait.\<close>

lemma queued_snoc: "queued k (q\<lparr>buf := buf q @ [p]\<rparr>) = queued k q + (if getThumbnailPath p = k then 1 else 0)"
  by (simp add: queued_def)

lemma owners_set_queue_snoc:
  "owners (set_queue cls ((queue_of cls s)\<lparr>buf := buf (queue_of cls s) @ [p]\<rparr>) s) k
     = owners s k + (if getThumbnailPath p = k then 1 else 0)"
  by (cases cls) (simp_all add: owners_def set_queue_def queue_of_def queued_snoc)

lemma inv_route_enqueue:
  assumes inv: "server_inv s" and i: "i < length (requests s)"
    and at: "requests s ! i = Q_Route p t c"
  shows "server_inv (set_request i (Q_Wait t c d)
           (set_queue cls ((queue_of cls s)\<lparr>buf := buf (queue_of cls s) @ [p]\<rparr>) s))"
proof -
  let ?m = "set_queue cls ((queue_of cls s)\<lparr>buf := buf (queue_of cls s) @ [p]\<rparr>) s"
  let ?s = "set_request i (Q_Wait t c d) ?m"
  have ok: "t = getThumbnailPath p" "pendingThumbs s t = Some c"
    using server_invD(4) [OF inv i] at by auto
  have fields: "pendingThumbs ?s = pendingThumbs s" "closed ?s = closed s"
    "workers ?s = workers s" "chans ?s = chans s" "crashed ?s = crashed s"
    "length (requests ?s) = length (requests s)" "requests ?m = requests s"
    by (cases cls; simp add: set_request_def set_queue_def)+
  have own: "owners ?s k = owners s k" for k
    using owners_set_request [of i ?m "Q_Wait t c d" k] i at fields(7)
      owners_set_queue_snoc [of cls s p k] ok(1) by simp
  have del: "deleting ?s t' = deleting s t'" for t'
  proof -
    have "deleting ?s t' = deleting ?m t'"
      using deleting_set_request [of i ?m t' "Q_Wait t c d"] i at fields(7) by simp
    then show ?thesis using fields(7) by (simp add: deleting_def)
  qed
  have 3: "\<forall>j<length (requests ?s). request_ok ?s (requests ?s ! j)"
  proof (intro allI impI)
    fix j assume "j < length (requests ?s)"
    then have j: "j < length (requests s)" using fields by simp
    have "request_ok s (requests ?s ! j)"
      using server_invD(4) [OF inv j] ok i fields(7) by (cases "j = i") (simp_all add: set_request_def)
    then show "request_ok ?s (requests ?s ! j)"
      using request_ok_cong [of ?s s] fields by simp
  qed
  have 4: "\<forall>w<length (workers ?s). worker_ok ?s (snd (workers ?s ! w))"
    using server_invD(5) [OF inv] worker_ok_cong [of ?s s] fields by simp
  have 5: "pending_ok ?s"
    using server_invD(6) [OF inv] del fields by (simp add: pending_ok_def)
  have 6: "closers_distinct ?s"
    using server_invD(7) [OF inv] fields by (simp add: closers_distinct_def)
  show ?thesis
    using own 3 4 5 6 server_invD(1,2,3,8) [OF inv] fields by (simp add: server_inv_def)
qed

text \<open>The fallback closes its channel.\<close>

lemma inv_close:
  assumes inv: "server_inv s" and i: "i < length (requests s)"
    and at: "requests s ! i = Q_Close p t c err"
  shows "server_inv (set_request i (Q_Delete p t err) (s\<lparr>closed := insert c (closed s)\<rparr>))"
proof -
  let ?m = "s\<lparr>closed := insert c (closed s)\<rparr>"
  let ?s = "set_request i (Q_Delete p t err) ?m"
  have ok: "t = getThumbnailPath p" "pendingThumbs s t = Some c" "c \<notin> closed s"
    using server_invD(4) [OF inv i] at by auto
  have pok: "pending_ok s" by (rule server_invD(6) [OF inv])
  have owner: "request_owns t (requests s ! i) = 1" using at by simp
  have own: "owners ?s k = owners s k" for k
    using owners_set_request [of i ?m "Q_Delete p t err" k] i at owners_cong [of ?m s k] by simp
  have here: "deleting ?s t"
    unfolding deleting_def using i by (auto simp: set_request_def intro!: exI [of _ i])
  have del: "deleting ?s t'" if d: "deleting s t'" for t'
  proof -
    obtain j q e where j: "j < length (requests s)" "requests s ! j = Q_Delete q t' e"
      using d by (auto simp: deleting_def)
    then have "j \<noteq> i" using at by auto
    then have "requests ?s ! j = Q_Delete q t' e" using j by (simp add: set_request_def)
    then show ?thesis using j unfolding deleting_def by (auto simp: set_request_def)
  qed
  have 3: "\<forall>j<length (requests ?s). request_ok ?s (requests ?s ! j)"
  proof (intro allI impI)
    fix j assume "j < length (requests ?s)"
    then have j: "j < length (requests s)" by (simp add: set_request_def)
    show "request_ok ?s (requests ?s ! j)"
    proof (cases "j = i")
      case True
      then show ?thesis using i ok by (simp add: set_request_def)
    next
      case False
      have notowner: "request_owns t (requests s ! j) = 0"
        using request_owner_excludes(1) [OF server_invD(2) [OF inv] i owner j False] .
      have okj: "request_ok s (requests s ! j)" by (rule server_invD(4) [OF inv j])
      have "request_ok ?m (requests s ! j)"
      proof (cases "requests s ! j")
        case (Q_Route q t' c')
        then have "c' \<noteq> c" using okj notowner pending_okD(3) [OF pok ok(2), of t'] by auto
        then show ?thesis using okj Q_Route by auto
      next
        case (Q_Generate q t' c')
        then have "c' \<noteq> c" using okj notowner pending_okD(3) [OF pok ok(2), of t'] by auto
        then show ?thesis using okj Q_Generate by auto
      next
        case (Q_Run q t' c' u)
        then have "c' \<noteq> c" using okj notowner pending_okD(3) [OF pok ok(2), of t'] by auto
        then show ?thesis using okj Q_Run by auto
      next
        case (Q_Close q t' c' e)
        then have "c' \<noteq> c" using okj notowner pending_okD(3) [OF pok ok(2), of t'] by auto
        then show ?thesis using okj Q_Close by auto
      qed (use okj in \<open>auto simp: closing_def\<close>)
      then show ?thesis using False request_ok_cong [of ?s ?m] by (simp add: set_request_def)
    qed
  qed
  have 4: "\<forall>w<length (workers ?s). worker_ok ?s (snd (workers ?s ! w))"
  proof (intro allI impI)
    fix w assume "w < length (workers ?s)"
    then have "worker_ok s (snd (workers s ! w))"
      using server_invD(5) [OF inv, of w] by (simp add: set_request_def)
    then show "worker_ok ?s (snd (workers ?s ! w))"
      using ok(2) by (cases "snd (workers s ! w)") (auto simp: set_request_def)
  qed
  have 5: "pending_ok ?s"
    unfolding pending_ok_def
  proof (intro allI impI)
    fix t' c' assume "pendingThumbs ?s t' = Some c'"
    then have old: "pendingThumbs s t' = Some c'" by (simp add: set_request_def)
    have "c' \<in> closed ?s \<longrightarrow> deleting ?s t'"
    proof
      assume "c' \<in> closed ?s"
      then consider "c' = c" | "c' \<in> closed s" by (auto simp: set_request_def)
      then show "deleting ?s t'"
      proof cases
        case 1
        then have "t' = t" using pending_okD(3) [OF pok ok(2), of t'] old by simp
        then show ?thesis using here by simp
      next
        case 2
        then show ?thesis using pending_okD(2) [OF pok old] del by blast
      qed
    qed
    then show "c' < chans ?s \<and> (c' \<in> closed ?s \<longrightarrow> deleting ?s t')
          \<and> (\<forall>t''. pendingThumbs ?s t'' = Some c' \<longrightarrow> t'' = t')"
      using pending_okD(1,3) [OF pok old] by (auto simp: set_request_def)
  qed
  have 6: "closers_distinct ?s"
    using server_invD(7) [OF inv] by (simp add: closers_distinct_def set_request_def)
  have 7: "\<forall>c'\<in>closed ?s. c' < chans ?s"
    using server_invD(8) [OF inv] pending_okD(1) [OF pok ok(2)] by (auto simp: set_request_def)
  have f: "pendingThumbs ?s = pendingThumbs s" "crashed ?s = crashed s"
    by (simp_all add: set_request_def)
  show ?thesis
    using own 3 4 5 6 7 server_invD(1,2,3) [OF inv] f by (simp add: server_inv_def)
qed


text \<open>An owner deletes the entry: no request or worker that owns the same path remains.\<close>

lemma request_ok_delete:
  assumes okj: "request_ok s pc" and notowner: "request_owns t pc = 0"
    and wait: "\<And>c. pendingThumbs s t = Some c \<Longrightarrow> c \<in> closed s1 \<or> closing s1 c"
    and fields: "pendingThumbs s1 = (pendingThumbs s)(t := None)" "closed s \<subseteq> closed s1"
    and cl: "\<And>c. closing s c \<Longrightarrow> c \<in> closed s1 \<or> closing s1 c"
    and keep: "\<And>c t'. t' \<noteq> t \<Longrightarrow> pendingThumbs s t' = Some c \<Longrightarrow> c \<in> closed s1 \<Longrightarrow> c \<in> closed s"
    and nopanic: "pc \<noteq> Responded Panicked"
  shows "request_ok s1 pc"
proof (cases pc)
  case (Q_Wait t' c d)
  then show ?thesis using okj wait [of c] fields cl [of c] by (cases "t' = t") auto
next
  case (Q_Route q t' c)
  then show ?thesis using okj notowner fields keep [of t' c] by (auto split: if_splits)
next
  case (Q_Generate q t' c)
  then show ?thesis using okj notowner fields keep [of t' c] by (auto split: if_splits)
next
  case (Q_Run q t' c u)
  then show ?thesis using okj notowner fields keep [of t' c] by (auto split: if_splits)
next
  case (Q_Close q t' c e)
  then show ?thesis using okj notowner fields keep [of t' c] by (auto split: if_splits)
next
  case (Q_Delete q t' e)
  then show ?thesis using okj notowner fields by (auto split: if_splits)
qed (use okj nopanic in auto)

lemma inv_delete:
  assumes inv: "server_inv s" and i: "i < length (requests s)"
    and at: "requests s ! i = Q_Delete p t err"
  shows "server_inv (set_request i (respond err t)
           (s\<lparr>pendingThumbs := (pendingThumbs s)(t := None)\<rparr>))"
proof -
  let ?m = "s\<lparr>pendingThumbs := (pendingThumbs s)(t := None)\<rparr>"
  let ?s = "set_request i (respond err t) ?m"
  obtain c where ok: "pendingThumbs s t = Some c" "c \<in> closed s"
    using server_invD(4) [OF inv i] at by auto
  have pok: "pending_ok s" by (rule server_invD(6) [OF inv])
  have owner: "request_owns t (requests s ! i) = 1" using at by simp
  have resp: "request_owns k (respond err t) = 0" "respond err t \<noteq> Responded Panicked"
    "\<And>q t' e. respond err t \<noteq> Q_Delete q t' e" for k
    by (cases err; simp add: respond_def)+
  have own: "owners ?s k + (if t = k then 1 else 0) = owners s k" for k
    using owners_set_request [of i ?m "respond err t" k] i at owners_cong [of ?m s k] resp(1)
    by simp
  have 1: "\<forall>k. owners ?s k \<le> 1"
  proof
    fix k show "owners ?s k \<le> 1" using own [of k] server_invD(2) [OF inv, of k] by simp
  qed
  have 2: "\<forall>k. pendingThumbs ?s k = None \<longrightarrow> owners ?s k = 0"
  proof (intro allI impI)
    fix k assume n: "pendingThumbs ?s k = None"
    show "owners ?s k = 0"
    proof (cases "k = t")
      case True
      then show ?thesis using own [of t] server_invD(2) [OF inv, of t] by simp
    next
      case False
      then have "pendingThumbs s k = None" using n by (simp add: set_request_def)
      then show ?thesis using own [of k] server_invD(3) [OF inv, of k] False by simp
    qed
  qed
  have 3: "\<forall>j<length (requests ?s). request_ok ?s (requests ?s ! j)"
  proof (intro allI impI)
    fix j assume "j < length (requests ?s)"
    then have j: "j < length (requests s)" by (simp add: set_request_def)
    show "request_ok ?s (requests ?s ! j)"
    proof (cases "j = i")
      case True
      then show ?thesis using i resp(2) by (cases err) (simp_all add: set_request_def respond_def)
    next
      case False
      have notowner: "request_owns t (requests s ! j) = 0"
        using request_owner_excludes(1) [OF server_invD(2) [OF inv] i owner j False] .
      have okj: "request_ok s (requests s ! j)" by (rule server_invD(4) [OF inv j])
      have "requests s ! j \<noteq> Responded Panicked" using okj by auto
      then have "request_ok ?s (requests s ! j)"
        using ok by (intro request_ok_delete [OF okj notowner])
          (auto simp: set_request_def closing_def)
      then show ?thesis using False by (simp add: set_request_def)
    qed
  qed
  have 4: "\<forall>w<length (workers ?s). worker_ok ?s (snd (workers ?s ! w))"
  proof (intro allI impI)
    fix w assume "w < length (workers ?s)"
    then have "worker_ok s (snd (workers s ! w))"
      using server_invD(5) [OF inv, of w] by (simp add: set_request_def)
    then show "worker_ok ?s (snd (workers ?s ! w))"
      by (cases "snd (workers s ! w)") (auto simp: set_request_def)
  qed
  have 5: "pending_ok ?s"
    unfolding pending_ok_def
  proof (intro allI impI)
    fix t' c' assume p: "pendingThumbs ?s t' = Some c'"
    then have ne: "t' \<noteq> t" and old: "pendingThumbs s t' = Some c'"
      by (auto simp: set_request_def split: if_splits)
    have "c' \<in> closed ?s \<longrightarrow> deleting ?s t'"
    proof
      assume "c' \<in> closed ?s"
      then have "deleting s t'" using pending_okD(2) [OF pok old] by (simp add: set_request_def)
      then obtain j q e where j: "j < length (requests s)" "requests s ! j = Q_Delete q t' e"
        by (auto simp: deleting_def)
      then have "j \<noteq> i" using at ne by auto
      then have "requests ?s ! j = Q_Delete q t' e" using j by (simp add: set_request_def)
      then show "deleting ?s t'" using j unfolding deleting_def by (auto simp: set_request_def)
    qed
    then show "c' < chans ?s \<and> (c' \<in> closed ?s \<longrightarrow> deleting ?s t')
          \<and> (\<forall>t''. pendingThumbs ?s t'' = Some c' \<longrightarrow> t'' = t')"
      using pending_okD(1,3) [OF pok old] by (auto simp: set_request_def)
  qed
  have 6: "closers_distinct ?s"
    using server_invD(7) [OF inv] by (simp add: closers_distinct_def set_request_def)
  have 7: "\<forall>c'\<in>closed ?s. c' < chans ?s"
    using server_invD(8) [OF inv] by (auto simp: set_request_def)
  have f: "crashed ?s = crashed s" by (simp add: set_request_def)
  show ?thesis
    using 1 2 3 4 5 6 7 server_invD(1) [OF inv] f by (simp add: server_inv_def)
qed

text \<open>A worker receives the oldest path of its queue.\<close>

lemma owners_set_queue_tail:
  assumes "buf (queue_of cls s) = p # rest"
  shows "owners (set_queue cls ((queue_of cls s)\<lparr>buf := rest\<rparr>) s) k
           + (if getThumbnailPath p = k then 1 else 0) = owners s k"
  using assms by (cases cls) (simp_all add: owners_def set_queue_def queue_of_def queued_def)

lemma inv_recv:
  assumes inv: "server_inv s" and w: "w < length (workers s)"
    and at: "workers s ! w = (cls, W_Recv)" and q: "buf (queue_of cls s) = p # rest"
  shows "server_inv (set_worker w cls (W_Generate p)
           (set_queue cls ((queue_of cls s)\<lparr>buf := rest\<rparr>) s))"
proof -
  let ?m = "set_queue cls ((queue_of cls s)\<lparr>buf := rest\<rparr>) s"
  let ?s = "set_worker w cls (W_Generate p) ?m"
  have mf: "pendingThumbs ?m = pendingThumbs s" "closed ?m = closed s"
    "workers ?m = workers s" "chans ?m = chans s" "crashed ?m = crashed s"
    "requests ?m = requests s"
    by (cases cls; simp add: set_queue_def)+
  have fields: "pendingThumbs ?s = pendingThumbs s" "closed ?s = closed s"
    "requests ?s = requests s" "chans ?s = chans s" "crashed ?s = crashed s"
    "length (workers ?s) = length (workers s)"
    using mf by (simp_all add: set_worker_def)
  have own: "owners ?s k = owners s k" for k
    using owners_set_worker [of w ?m cls "W_Generate p" k] w at mf(3)
      owners_set_queue_tail [OF q, of k] by simp
  have cl: "closing ?s c = closing s c" for c
  proof -
    have "closing ?s c = closing ?m c"
      using closing_set_worker [of w ?m c "W_Generate p" cls] w at mf(3) by simp
    then show ?thesis using mf(3) by (simp add: closing_def)
  qed
  have 3: "\<forall>j<length (requests ?s). request_ok ?s (requests ?s ! j)"
    using server_invD(4) [OF inv] request_ok_closing [of ?s s] fields cl by simp
  have 4: "\<forall>v<length (workers ?s). worker_ok ?s (snd (workers ?s ! v))"
  proof (intro allI impI)
    fix v assume "v < length (workers ?s)"
    then have v: "v < length (workers s)" using fields by simp
    show "worker_ok ?s (snd (workers ?s ! v))"
    proof (cases "v = w")
      case True
      then show ?thesis using w mf(3) by (simp add: set_worker_def)
    next
      case False
      then show ?thesis
        using server_invD(5) [OF inv v] worker_ok_cong [of ?s s] fields mf(3)
        by (simp add: set_worker_def)
    qed
  qed
  have 5: "pending_ok ?s"
    using server_invD(6) [OF inv] fields by (simp add: pending_ok_def deleting_def)
  have 6: "closers_distinct ?s"
    unfolding closers_distinct_def
  proof (intro allI impI)
    fix i j c
    assume a: "i < length (workers ?s)" "j < length (workers ?s)" "i \<noteq> j"
      "snd (workers ?s ! i) = W_Close c"
    then have "i \<noteq> w" using w mf(3) by (auto simp: set_worker_def)
    show "snd (workers ?s ! j) \<noteq> W_Close c"
    proof (cases "j = w")
      case True
      then show ?thesis using w mf(3) by (simp add: set_worker_def)
    next
      case False
      then show ?thesis
        using server_invD(7) [OF inv] a \<open>i \<noteq> w\<close> mf(3)
        by (auto simp: closers_distinct_def set_worker_def)
    qed
  qed
  show ?thesis
    using own 3 4 5 6 server_invD(1,2,3,8) [OF inv] fields by (simp add: server_inv_def)
qed

text \<open>A worker takes the entry out of the map.\<close>

lemma inv_wload:
  assumes inv: "server_inv s" and w: "w < length (workers s)"
    and at: "workers s ! w = (cls, W_LoadAndDelete p err)"
    and p: "pendingThumbs s (getThumbnailPath p) = Some c"
  shows "server_inv (set_worker w cls (W_Close c)
           (s\<lparr>pendingThumbs := (pendingThumbs s)(getThumbnailPath p := None)\<rparr>))"
proof -
  let ?t = "getThumbnailPath p"
  let ?m = "s\<lparr>pendingThumbs := (pendingThumbs s)(?t := None)\<rparr>"
  let ?s = "set_worker w cls (W_Close c) ?m"
  have pok: "pending_ok s" by (rule server_invD(6) [OF inv])
  have owner: "worker_owns ?t (workers s ! w) = 1" using at by simp
  have noreq: "request_owns ?t (requests s ! j) = 0" if "j < length (requests s)" for j
    using worker_owner_excludes(1) [OF server_invD(2) [OF inv] w owner that] .
  have open_c: "c \<notin> closed s"
  proof
    assume "c \<in> closed s"
    then have "deleting s ?t" using pending_okD(2) [OF pok p] by simp
    then obtain j q e where j: "j < length (requests s)" "requests s ! j = Q_Delete q ?t e"
      by (auto simp: deleting_def)
    then show False using noreq [of j] by simp
  qed
  have here: "closing ?s c"
  proof -
    have "w < length (workers ?s)" "snd (workers ?s ! w) = W_Close c"
      using w by (simp_all add: set_worker_def)
    then show ?thesis unfolding closing_def by blast
  qed
  have cl: "closing ?s c'" if d: "closing s c'" for c'
  proof -
    obtain v where v: "v < length (workers s)" "snd (workers s ! v) = W_Close c'"
      using d by (auto simp: closing_def)
    then have "v \<noteq> w" using at by auto
    then have "snd (workers ?s ! v) = W_Close c'" using v by (simp add: set_worker_def)
    then show ?thesis using v unfolding closing_def by (auto simp: set_worker_def)
  qed
  have own: "owners ?s k + (if ?t = k then 1 else 0) = owners s k" for k
    using owners_set_worker [of w ?m cls "W_Close c" k] w at owners_cong [of ?m s k] by simp
  have 1: "\<forall>k. owners ?s k \<le> 1"
  proof
    fix k show "owners ?s k \<le> 1" using own [of k] server_invD(2) [OF inv, of k] by simp
  qed
  have 2: "\<forall>k. pendingThumbs ?s k = None \<longrightarrow> owners ?s k = 0"
  proof (intro allI impI)
    fix k assume n: "pendingThumbs ?s k = None"
    show "owners ?s k = 0"
    proof (cases "k = ?t")
      case True
      then show ?thesis using own [of ?t] server_invD(2) [OF inv, of ?t] by simp
    next
      case False
      then have "pendingThumbs s k = None" using n by (simp add: set_worker_def)
      then show ?thesis using own [of k] server_invD(3) [OF inv, of k] False by simp
    qed
  qed
  have 3: "\<forall>j<length (requests ?s). request_ok ?s (requests ?s ! j)"
  proof (intro allI impI)
    fix j assume "j < length (requests ?s)"
    then have j: "j < length (requests s)" by (simp add: set_worker_def)
    have okj: "request_ok s (requests s ! j)" by (rule server_invD(4) [OF inv j])
    have "requests s ! j \<noteq> Responded Panicked" using okj by auto
    then have "request_ok ?s (requests s ! j)"
      using p here cl by (intro request_ok_delete [OF okj noreq [OF j]])
        (auto simp: set_worker_def)
    then show "request_ok ?s (requests ?s ! j)" by (simp add: set_worker_def)
  qed
  have 4: "\<forall>v<length (workers ?s). worker_ok ?s (snd (workers ?s ! v))"
  proof (intro allI impI)
    fix v assume "v < length (workers ?s)"
    then have v: "v < length (workers s)" by (simp add: set_worker_def)
    show "worker_ok ?s (snd (workers ?s ! v))"
    proof (cases "v = w")
      case True
      have "\<forall>t'. pendingThumbs ?s t' \<noteq> Some c"
        using pending_okD(3) [OF pok p] by (auto simp: set_worker_def)
      then show ?thesis
        using True w open_c pending_okD(1) [OF pok p] by (simp add: set_worker_def)
    next
      case False
      have "worker_ok s (snd (workers s ! v))" by (rule server_invD(5) [OF inv v])
      then show ?thesis
        using False by (cases "snd (workers s ! v)") (auto simp: set_worker_def)
    qed
  qed
  have 5: "pending_ok ?s"
    unfolding pending_ok_def
  proof (intro allI impI)
    fix t' c' assume "pendingThumbs ?s t' = Some c'"
    then have old: "pendingThumbs s t' = Some c'"
      by (auto simp: set_worker_def split: if_splits)
    have "deleting ?s t' = deleting s t'" by (simp add: deleting_def set_worker_def)
    then show "c' < chans ?s \<and> (c' \<in> closed ?s \<longrightarrow> deleting ?s t')
          \<and> (\<forall>t''. pendingThumbs ?s t'' = Some c' \<longrightarrow> t'' = t')"
      using pending_okD [OF pok old] by (auto simp: set_worker_def)
  qed
  have 6: "closers_distinct ?s"
    unfolding closers_distinct_def
  proof (intro allI impI)
    fix i j c'
    assume "i < length (workers ?s)" "j < length (workers ?s)" and ne: "i \<noteq> j"
      and ci: "snd (workers ?s ! i) = W_Close c'"
    then have ij: "i < length (workers s)" "j < length (workers s)"
      by (simp_all add: set_worker_def)
    have ws: "workers ?s = (workers s)[w := (cls, W_Close c)]" by (simp add: set_worker_def)
    have notc: "snd (workers s ! v) \<noteq> W_Close c" if "v < length (workers s)" for v
      using server_invD(5) [OF inv that] p by (cases "snd (workers s ! v)") auto
    show "snd (workers ?s ! j) \<noteq> W_Close c'"
    proof (cases "i = w")
      case True
      then have "W_Close c' = W_Close c" using ci w unfolding ws by simp
      moreover have "snd (workers ?s ! j) = snd (workers s ! j)"
        using True ne unfolding ws by simp
      ultimately show ?thesis using notc [OF ij(2)] by simp
    next
      case False
      then have i': "snd (workers s ! i) = W_Close c'" using ci unfolding ws by simp
      show ?thesis
      proof (cases "j = w")
        case True
        then have "snd (workers ?s ! j) = W_Close c" using w unfolding ws by simp
        then show ?thesis using notc [OF ij(1)] i' by auto
      next
        case False
        then have "snd (workers ?s ! j) = snd (workers s ! j)" unfolding ws by simp
        then show ?thesis
          using server_invD(7) [OF inv] ij ne i' unfolding closers_distinct_def by metis
      qed
    qed
  qed
  have 7: "\<forall>c'\<in>closed ?s. c' < chans ?s"
    using server_invD(8) [OF inv] by (auto simp: set_worker_def)
  have f: "crashed ?s = crashed s" by (simp add: set_worker_def)
  show ?thesis
    using 1 2 3 4 5 6 7 server_invD(1) [OF inv] f by (simp add: server_inv_def)
qed



text \<open>A worker closes the channel it took out of the map.\<close>

lemma inv_wclose:
  assumes inv: "server_inv s" and w: "w < length (workers s)"
    and at: "workers s ! w = (cls, W_Close c)"
  shows "server_inv (set_worker w cls W_Recv (s\<lparr>closed := insert c (closed s)\<rparr>))"
proof -
  let ?m = "s\<lparr>closed := insert c (closed s)\<rparr>"
  let ?s = "set_worker w cls W_Recv ?m"
  have ws: "workers ?s = (workers s)[w := (cls, W_Recv)]" by (simp add: set_worker_def)
  have f: "crashed ?s = crashed s" "pendingThumbs ?s = pendingThumbs s"
    "closed ?s = insert c (closed s)" "requests ?s = requests s" "chans ?s = chans s"
    "length (workers ?s) = length (workers s)"
    by (simp_all add: set_worker_def)
  have wok: "c \<notin> closed s" "c < chans s" "\<And>t. pendingThumbs s t \<noteq> Some c"
    using server_invD(5) [OF inv w] at by simp_all
  have pok: "pending_ok s" by (rule server_invD(6) [OF inv])
  have own: "owners ?s k = owners s k" for k
    using owners_set_worker [of w ?m cls W_Recv k] w at owners_cong [of ?m s k] by simp
  have cl: "c' = c \<or> closing ?s c'" if d: "closing s c'" for c'
  proof -
    obtain v where v: "v < length (workers s)" "snd (workers s ! v) = W_Close c'"
      using d by (auto simp: closing_def)
    show ?thesis
    proof (cases "v = w")
      case True
      then show ?thesis using v at by simp
    next
      case False
      then have "snd (workers ?s ! v) = W_Close c'" using v unfolding ws by simp
      then have "closing ?s c'" using v f(6) unfolding closing_def by metis
      then show ?thesis ..
    qed
  qed
  have 3: "\<forall>j<length (requests ?s). request_ok ?s (requests ?s ! j)"
  proof (intro allI impI)
    fix j assume "j < length (requests ?s)"
    then have j: "j < length (requests s)" using f by simp
    have okj: "request_ok s (requests s ! j)" by (rule server_invD(4) [OF inv j])
    have "request_ok ?s (requests s ! j)"
    proof (cases "requests s ! j")
      case (Q_Wait t' c' d)
      then show ?thesis using okj cl [of c'] f by auto
    qed (use okj wok(3) f in auto)
    then show "request_ok ?s (requests ?s ! j)" using f by simp
  qed
  have 4: "\<forall>v<length (workers ?s). worker_ok ?s (snd (workers ?s ! v))"
  proof (intro allI impI)
    fix v assume "v < length (workers ?s)"
    then have v: "v < length (workers s)" using f by simp
    show "worker_ok ?s (snd (workers ?s ! v))"
    proof (cases "v = w")
      case True
      then show ?thesis using w unfolding ws by simp
    next
      case False
      have okv: "worker_ok s (snd (workers s ! v))" by (rule server_invD(5) [OF inv v])
      have same: "snd (workers ?s ! v) = snd (workers s ! v)" using False unfolding ws by simp
      have "snd (workers s ! v) \<noteq> W_Close c"
        using server_invD(7) [OF inv] w v False at unfolding closers_distinct_def
        by (metis snd_conv)
      then have "worker_ok ?s (snd (workers s ! v))"
        using okv f by (cases "snd (workers s ! v)") auto
      then show ?thesis using same by simp
    qed
  qed
  have 5: "pending_ok ?s"
    unfolding pending_ok_def
  proof (intro allI impI)
    fix t' c' assume "pendingThumbs ?s t' = Some c'"
    then have old: "pendingThumbs s t' = Some c'" using f by simp
    then have "c' \<noteq> c" using wok(3) by auto
    moreover have "deleting ?s t' = deleting s t'" using f by (simp add: deleting_def)
    ultimately show "c' < chans ?s \<and> (c' \<in> closed ?s \<longrightarrow> deleting ?s t')
          \<and> (\<forall>t''. pendingThumbs ?s t'' = Some c' \<longrightarrow> t'' = t')"
      using pending_okD [OF pok old] f by auto
  qed
  have 6: "closers_distinct ?s"
    unfolding closers_distinct_def
  proof (intro allI impI)
    fix i j c'
    assume "i < length (workers ?s)" "j < length (workers ?s)" and ne: "i \<noteq> j"
      and ci: "snd (workers ?s ! i) = W_Close c'"
    then have ij: "i < length (workers s)" "j < length (workers s)" using f by simp_all
    have "i \<noteq> w" using ci ij unfolding ws by auto
    then have i': "snd (workers s ! i) = W_Close c'" using ci unfolding ws by simp
    show "snd (workers ?s ! j) \<noteq> W_Close c'"
    proof (cases "j = w")
      case True
      then show ?thesis using w unfolding ws by simp
    next
      case False
      then have "snd (workers ?s ! j) = snd (workers s ! j)" unfolding ws by simp
      then show ?thesis
        using server_invD(7) [OF inv] ij ne i' unfolding closers_distinct_def by metis
    qed
  qed
  have 7: "\<forall>c'\<in>closed ?s. c' < chans ?s"
    using server_invD(8) [OF inv] wok(2) f by auto
  show ?thesis
    using own 3 4 5 6 7 server_invD(1,2,3) [OF inv] f by (simp add: server_inv_def)
qed

text \<open>Every step keeps the invariant.\<close>

lemma respond_plain:
  "request_owns k (respond err t) = 0" "respond err t \<noteq> Q_Delete q t' e"
  "request_ok s (respond err t)"
  by (cases err; simp add: respond_def)+

lemma request_ok_world [simp]:
  "request_ok (s\<lparr>files := f\<rparr>) pc = request_ok s pc"
  "request_ok (s\<lparr>calls := cs\<rparr>) pc = request_ok s pc"
  "request_ok (s\<lparr>files := f, calls := cs\<rparr>) pc = request_ok s pc"
  by (rule request_ok_cong; simp)+

lemma request_step_inv:
  assumes inv: "server_inv s" and i: "i < length (requests s)"
    and st: "request_step i e (requests s ! i) s = Some s1"
  shows "server_inv s1"
proof (cases "requests s ! i")
  case (H_Stat p)
  then show ?thesis using st inv i
    by (auto simp: os_IsNotExist_def os_Stat_def split: if_splits intro!: inv_request_local)
next
  case (H_StatThumb p)
  then show ?thesis using st inv i
    by (auto simp: os_IsNotExist_def os_Stat_def Let_def split: if_splits intro!: inv_request_local)
next
  case (Q_LoadOrStore p t)
  show ?thesis
  proof (cases "pendingThumbs s t")
    case None
    then show ?thesis using st Q_LoadOrStore inv_load_start [OF inv i Q_LoadOrStore None]
      by (simp add: Let_def)
  next
    case (Some c)
    let ?m = "s\<lparr>chans := Suc (chans s)\<rparr>"
    have "server_inv (set_request i (Q_Wait t c (now s + wait_timeout)) ?m)"
      using inv_chans [OF inv] i Q_LoadOrStore Some
      by (intro inv_request_local) (simp_all add: closing_def)
    then show ?thesis using st Q_LoadOrStore Some by (simp add: Let_def)
  qed
next
  case (Q_Route p t c)
  have ok: "request_ok s (Q_Route p t c)" using server_invD(4) [OF inv i] Q_Route by auto
  have unsupported: "server_inv (set_request i (respond (Some ErrUnsupported) t) s)"
    using inv i Q_Route by (intro inv_request_local) (simp_all add: respond_def)
  have routed: "server_inv (enqueue_or_fallback i cls p t c s)" for cls
  proof (cases "try_send (queue_of cls s) p")
    case None
    have "server_inv (set_request i (Q_Generate p t c) s)"
      using inv i Q_Route ok by (intro inv_request_local) auto
    then show ?thesis using None by (simp add: enqueue_or_fallback_def)
  next
    case (Some q)
    then have "q = (queue_of cls s)\<lparr>buf := buf (queue_of cls s) @ [p]\<rparr>"
      by (auto simp: try_send_def split: if_splits)
    then show ?thesis using Some inv_route_enqueue [OF inv i Q_Route]
      by (simp add: enqueue_or_fallback_def)
  qed
  show ?thesis using st Q_Route unsupported routed by (auto simp: Let_def split: if_splits)
next
  case (Q_Generate p t c)
  have ok: "request_ok s (Q_Generate p t c)" using server_invD(4) [OF inv i] Q_Generate by auto
  obtain pr fs1 where g: "generateThumbnail_start e p (files s) = (pr, fs1)"
    by (cases "generateThumbnail_start e p (files s)")
  have "server_inv (set_request i pc (s\<lparr>files := fs1\<rparr>))"
    if "pc = Q_Close p t c err \<or> pc = Q_Run p t c u" for pc err u
    using that inv i Q_Generate ok by (intro inv_request_local) auto
  then show ?thesis using st Q_Generate g by (cases pr) auto
next
  case (Q_Run p t c u)
  have ok: "request_ok s (Q_Run p t c u)" using server_invD(4) [OF inv i] Q_Run by auto
  have "server_inv (set_request i (Q_Close p t c err) (s\<lparr>files := f, calls := cs\<rparr>))" for err f cs
    using inv i Q_Run ok by (intro inv_request_local) auto
  moreover have "server_inv (set_request i (Q_Close p t c err) (s\<lparr>calls := cs\<rparr>))" for err cs
    using inv i Q_Run ok by (intro inv_request_local) auto
  ultimately show ?thesis using st Q_Run by (auto simp: cmd_Run_def Let_def split: if_splits)
next
  case (Q_Close p t c err)
  have "c \<notin> closed s" using server_invD(4) [OF inv i] Q_Close by simp
  then show ?thesis using st Q_Close inv_close [OF inv i Q_Close] by auto
next
  case (Q_Delete p t err)
  then show ?thesis using st inv_delete [OF inv i Q_Delete] by auto
next
  case (Q_Wait t c d)
  have "server_inv (set_request i (respond err t) s)" for err
    using inv i Q_Wait respond_plain by (intro inv_request_local) simp_all
  then show ?thesis using st Q_Wait by (auto split: if_splits)
next
  case (Responded r)
  then show ?thesis using st by simp
qed

lemma timeout_step_inv:
  assumes inv: "server_inv s" and i: "i < length (requests s)"
    and st: "timeout_step i (requests s ! i) s = Some s1"
  shows "server_inv s1"
proof (cases "requests s ! i")
  case (Q_Wait t c d)
  have "server_inv (set_request i (respond err t) s)" for err
    using inv i Q_Wait respond_plain by (intro inv_request_local) simp_all
  then show ?thesis using st Q_Wait by (auto split: if_splits)
qed (use st in auto)

lemma worker_step_inv:
  assumes inv: "server_inv s" and w: "w < length (workers s)"
    and at: "workers s ! w = (cls, pc)"
    and st: "worker_step w e cls pc s = Some s1"
  shows "server_inv s1"
proof (cases pc)
  case W_Recv
  then show ?thesis using st at inv_recv [OF inv w]
    by (auto split: list.splits)
next
  case (W_Generate p)
  obtain pr fs1 where g: "generateThumbnail_start e p (files s) = (pr, fs1)"
    by (cases "generateThumbnail_start e p (files s)")
  have "server_inv (set_worker w cls pc' (s\<lparr>files := fs1\<rparr>))"
    if "pc' = W_LoadAndDelete p err \<or> pc' = W_Run p u" for pc' err u
    using that inv w at W_Generate by (intro inv_worker_local) auto
  then show ?thesis using st W_Generate g by (cases pr) auto
next
  case (W_Run p u)
  have "server_inv (set_worker w cls (W_LoadAndDelete p err) (s\<lparr>files := f, calls := cs\<rparr>))" for err f cs
    using inv w at W_Run by (intro inv_worker_local) auto
  moreover have "server_inv (set_worker w cls (W_LoadAndDelete p err) (s\<lparr>calls := cs\<rparr>))" for err cs
    using inv w at W_Run by (intro inv_worker_local) auto
  ultimately show ?thesis using st W_Run by (auto simp: cmd_Run_def Let_def split: if_splits)
next
  case (W_LoadAndDelete p err)
  show ?thesis
  proof (cases "pendingThumbs s (getThumbnailPath p)")
    case None
    have "server_inv (set_worker w cls W_Recv s)"
      using inv w at W_LoadAndDelete by (intro inv_worker_local) auto
    then show ?thesis using st W_LoadAndDelete None by (simp add: Let_def)
  next
    case (Some c)
    then show ?thesis using st at W_LoadAndDelete inv_wload [OF inv w _ Some]
      by (simp add: Let_def)
  qed
next
  case (W_Close c)
  have "c \<notin> closed s" using server_invD(5) [OF inv w] at W_Close by simp
  then show ?thesis using st at W_Close inv_wclose [OF inv w] by auto
qed

lemma step_inv:
  assumes inv: "server_inv s" and st: "step ev s = Some s1"
  shows "server_inv s1"
proof (cases ev)
  case (Accept p)
  then show ?thesis using st inv_accept [OF inv] by (auto simp: step_def split: if_splits)
next
  case (Request i e)
  then show ?thesis using st request_step_inv [OF inv]
    by (auto simp: step_def split: if_splits)
next
  case (Timeout i)
  then show ?thesis using st timeout_step_inv [OF inv]
    by (auto simp: step_def split: if_splits)
next
  case (Worker w e)
  then show ?thesis using st worker_step_inv [OF inv]
    by (auto simp: step_def imageThumbnailWorker_def movieThumbnailWorker_def
        split: if_splits prod.splits mclass.splits)
next
  case (Tick d)
  then show ?thesis using st inv by (auto simp: step_def split: if_splits)
qed

lemma sum_list_replicate_zero:
  fixes f :: "'a \<Rightarrow> nat"
  shows "f x = 0 \<Longrightarrow> sum_list (map f (replicate n x)) = 0"
  by (induction n) simp_all

lemma new_server_inv: "server_inv (new_server queueSize numImageWorkers numMovieWorkers fs0)"
proof -
  let ?s = "new_server queueSize numImageWorkers numMovieWorkers fs0"
  have w: "snd (workers ?s ! v) = W_Recv" if "v < length (workers ?s)" for v
    using that by (auto simp: new_server_def nth_append)
  have "owners ?s k = 0" for k
    by (simp add: owners_def new_server_def queued_def sum_list_replicate_zero)
  then show ?thesis using w
    by (simp add: server_inv_def pending_ok_def closers_distinct_def)
       (simp add: new_server_def)
qed

lemma reachable_inv: "reachable s \<Longrightarrow> server_inv s"
  by (induction rule: reachable.induct) (auto intro: new_server_inv step_inv)

text \<open>No \<open>close\<close> of a closed channel: no handler panics and the process does not crash.\<close>

lemma no_panic:
  assumes "reachable s"
  shows "\<not> crashed s" and "Responded Panicked \<notin> set (requests s)"
proof -
  have inv: "server_inv s" using assms by (rule reachable_inv)
  show "\<not> crashed s" by (rule server_invD(1) [OF inv])
  show "Responded Panicked \<notin> set (requests s)"
  proof
    assume "Responded Panicked \<in> set (requests s)"
    then obtain i where "i < length (requests s)" "requests s ! i = Responded Panicked"
      by (auto simp: in_set_conv_nth)
    then show False using server_invD(4) [OF inv, of i] by simp
  qed
qed

section \<open>Completion of a generation\<close>

lemma step_Worker:
  "\<not> crashed s \<Longrightarrow> w < length (workers s) \<Longrightarrow> workers s ! w = (cls, pc) \<Longrightarrow>
     step (Worker w e) s = worker_step w e cls pc s"
  by (cases cls) (simp_all add: step_def imageThumbnailWorker_def movieThumbnailWorker_def)

lemma step_Request:
  "\<not> crashed s \<Longrightarrow> i < length (requests s) \<Longrightarrow>
     step (Request i e) s = request_step i e (requests s ! i) s"
  by (simp add: step_def)

lemma reachable_exec: "reachable s \<Longrightarrow> exec evs s = Some s1 \<Longrightarrow> reachable s1"
proof (induction evs arbitrary: s)
  case Nil
  then show ?case by simp
next
  case (Cons ev evs)
  then show ?case by (auto split: option.splits intro: reachable.step)
qed

lemma exec_append:
  "exec (xs @ ys) s = (case exec xs s of None \<Rightarrow> None | Some s1 \<Rightarrow> exec ys s1)"
  by (induction xs arbitrary: s) (auto split: option.splits)

lemma owner_has_entry:
  assumes "server_inv s" and "0 < owners s k"
  obtains c where "pendingThumbs s k = Some c"
  using assms server_invD(3) [of s k] by (cases "pendingThumbs s k") auto

lemma worker_owner_entry:
  assumes inv: "server_inv s" and w: "w < length (workers s)"
    and own: "worker_owns k (workers s ! w) = 1"
  obtains c where "pendingThumbs s k = Some c"
proof -
  have "worker_owns k (workers s ! w) \<le> sum_list (map (worker_owns k) (workers s))"
    using w by (rule sum_list_one_nat)
  then have "0 < owners s k" using own by (simp add: owners_def)
  then show ?thesis using owner_has_entry [OF inv] that by blast
qed

text \<open>The two last steps of a worker's turn: take the entry out, close its channel.\<close>

lemma worker_completion:
  assumes r: "reachable s" and w: "w < length (workers s)"
    and at: "workers s ! w = (cls, W_LoadAndDelete p err)"
  obtains s1 c where "exec [Worker w e, Worker w e'] s = Some s1"
    and "pendingThumbs s (getThumbnailPath p) = Some c"
    and "s1 = set_worker w cls W_Recv
                (s\<lparr>pendingThumbs := (pendingThumbs s)(getThumbnailPath p := None),
                   closed := insert c (closed s)\<rparr>)"
    and "c \<notin> closed s" and "reachable s1"
proof -
  let ?k = "getThumbnailPath p"
  have inv: "server_inv s" using r by (rule reachable_inv)
  have nc: "\<not> crashed s" by (rule server_invD(1) [OF inv])
  obtain c where c: "pendingThumbs s ?k = Some c"
    using worker_owner_entry [OF inv w, of ?k] at by auto
  let ?a = "set_worker w cls (W_Close c) (s\<lparr>pendingThumbs := (pendingThumbs s)(?k := None)\<rparr>)"
  have a: "step (Worker w e) s = Some ?a"
    using step_Worker [OF nc w at] c by (simp add: Let_def)
  have ra: "reachable ?a" using r a by (rule reachable.step)
  have wa: "w < length (workers ?a)" "workers ?a ! w = (cls, W_Close c)" "\<not> crashed ?a"
    using w nc by (simp_all add: set_worker_def)
  have "worker_ok ?a (snd (workers ?a ! w))"
    using server_invD(5) [OF reachable_inv [OF ra] wa(1)] .
  then have open_c: "c \<notin> closed s" using wa(2) by (simp add: set_worker_def)
  let ?b = "set_worker w cls W_Recv (?a\<lparr>closed := insert c (closed ?a)\<rparr>)"
  have b: "step (Worker w e') ?a = Some ?b"
    using step_Worker [OF wa(3) wa(1) wa(2)] open_c by (simp add: set_worker_def)
  have eq: "?b = set_worker w cls W_Recv
                (s\<lparr>pendingThumbs := (pendingThumbs s)(?k := None),
                   closed := insert c (closed s)\<rparr>)"
    by (simp add: set_worker_def)
  have ex: "exec [Worker w e, Worker w e'] s = Some ?b" using a b by simp
  have "reachable ?b" using ra b by (rule reachable.step)
  then show ?thesis using that [OF ex c eq open_c] by simp
qed


text \<open>\<open>generateThumbnail\<close> changes the files and the record of tool runs, nothing else.\<close>

lemma generateThumbnail_frame:
  "snd (generateThumbnail e p s)
     = s\<lparr>files := files (snd (generateThumbnail e p s)),
          calls := calls (snd (generateThumbnail e p s))\<rparr>"
  by (auto simp: generateThumbnail_def cmd_Run_def Let_def split: prod.splits progress.splits)

lemma cmd_Run_set_worker:
  "cmd_Run e u p (set_worker w cls pc s)
     = (fst (cmd_Run e u p s), set_worker w cls pc (snd (cmd_Run e u p s)))"
  by (simp add: cmd_Run_def set_worker_def Let_def)

lemma cmd_Run_set_request:
  "cmd_Run e u p (set_request i pc s)
     = (fst (cmd_Run e u p s), set_request i pc (snd (cmd_Run e u p s)))"
  by (simp add: cmd_Run_def set_request_def Let_def)

lemma set_worker_twice [simp]:
  "set_worker w cls pc (set_worker w cls' pc' s) = set_worker w cls pc s"
  by (simp add: set_worker_def)

lemma set_request_twice [simp]:
  "set_request i pc (set_request i pc' s) = set_request i pc s"
  by (simp add: set_request_def)

lemma crashed_cmd_Run [simp]: "crashed (snd (cmd_Run e u p s)) = crashed s"
  by (simp add: cmd_Run_def Let_def)

lemma workers_cmd_Run [simp]: "workers (snd (cmd_Run e u p s)) = workers s"
  by (simp add: cmd_Run_def Let_def)

lemma requests_cmd_Run [simp]: "requests (snd (cmd_Run e u p s)) = requests s"
  by (simp add: cmd_Run_def Let_def)

text \<open>A worker that has received a path runs \<open>generateThumbnail\<close> on it, in one or two steps.\<close>

lemma worker_generation:
  assumes nc: "\<not> crashed s" and w: "w < length (workers s)"
    and at: "workers s ! w = (cls, W_Generate p)"
  obtains n where "n = 1 \<or> n = 2"
    and "exec (replicate n (Worker w e)) s
           = Some (set_worker w cls (W_LoadAndDelete p (fst (generateThumbnail e p s)))
                     (snd (generateThumbnail e p s)))"
proof -
  obtain pr fs1 where g: "generateThumbnail_start e p (files s) = (pr, fs1)"
    by (cases "generateThumbnail_start e p (files s)")
  show ?thesis
  proof (cases pr)
    case (Finished err)
    have "exec (replicate 1 (Worker w e)) s
           = Some (set_worker w cls (W_LoadAndDelete p (fst (generateThumbnail e p s)))
                     (snd (generateThumbnail e p s)))"
      using step_Worker [OF nc w at] g Finished by (simp add: generateThumbnail_def)
    then show ?thesis using that by blast
  next
    case (Running u)
    let ?m = "s\<lparr>files := fs1\<rparr>"
    let ?a = "set_worker w cls (W_Run p u) ?m"
    have a: "step (Worker w e) s = Some ?a"
      using step_Worker [OF nc w at] g Running by simp
    have wa: "\<not> crashed ?a" "w < length (workers ?a)" "workers ?a ! w = (cls, W_Run p u)"
      using nc w by (simp_all add: set_worker_def)
    have gen: "generateThumbnail e p s = cmd_Run e u p ?m"
      using g Running by (simp add: generateThumbnail_def)
    have b: "step (Worker w e) ?a
               = Some (set_worker w cls (W_LoadAndDelete p (fst (cmd_Run e u p ?m)))
                         (snd (cmd_Run e u p ?m)))"
      using step_Worker [OF wa] by (simp add: cmd_Run_set_worker)
    have "exec (replicate 2 (Worker w e)) s
           = Some (set_worker w cls (W_LoadAndDelete p (fst (generateThumbnail e p s)))
                     (snd (generateThumbnail e p s)))"
      using a b gen by (simp add: numeral_2_eq_2)
    then show ?thesis using that by blast
  qed
qed

lemma exec_replicate_add:
  "exec (replicate n ev) s = Some s1 \<Longrightarrow> exec (replicate m ev) s1 = Some s2 \<Longrightarrow>
     exec (replicate (n + m) ev) s = Some s2"
  by (simp add: replicate_add exec_append)

text \<open>
  Claim C2. A worker that has received a path, image or movie, runs \<open>generateThumbnail\<close>
  on it and then, whether that succeeded or failed, takes the entry of the thumbnail path
  out of the pending map and closes its channel, in at most four steps of its own, none
  of which can block or panic. Afterwards no entry is left, every request waiting on
  that channel can go on, and every request waiting for that thumbnail path holds a
  channel that is closed or that a worker is about to close.
\<close>
theorem worker_always_completes:
  assumes r: "reachable s" and w: "w < length (workers s)"
    and at: "workers s ! w = (cls, W_Generate p)"
  shows "\<exists>n s1 c. n \<le> 4 \<and> exec (replicate n (Worker w e)) s = Some s1
           \<and> files s1 = files (snd (generateThumbnail e p s))
           \<and> calls s1 = calls (snd (generateThumbnail e p s))
           \<and> pendingThumbs s (getThumbnailPath p) = Some c
           \<and> pendingThumbs s1 (getThumbnailPath p) = None
           \<and> c \<in> closed s1 \<and> \<not> crashed s1
           \<and> workers s1 ! w = (cls, W_Recv) \<and> requests s1 = requests s
           \<and> (\<forall>j<length (requests s1). \<forall>c' d.
                  requests s1 ! j = Q_Wait (getThumbnailPath p) c' d \<longrightarrow>
                  c' \<in> closed s1 \<or> closing s1 c')
           \<and> (\<forall>j<length (requests s1). \<forall>t d e'.
                  requests s1 ! j = Q_Wait t c d \<longrightarrow> step (Request j e') s1 \<noteq> None)"
proof -
  let ?k = "getThumbnailPath p"
  let ?G = "generateThumbnail e p s"
  have nc: "\<not> crashed s" using server_invD(1) [OF reachable_inv [OF r]] .
  let ?a = "set_worker w cls (W_LoadAndDelete p (fst ?G)) (snd ?G)"
  obtain n where n: "n = 1 \<or> n = 2" and gen: "exec (replicate n (Worker w e)) s = Some ?a"
    using worker_generation [OF nc w at] by blast
  have fr: "snd ?G = s\<lparr>files := files (snd ?G), calls := calls (snd ?G)\<rparr>"
    by (rule generateThumbnail_frame)
  have af: "pendingThumbs ?a = pendingThumbs s" "closed ?a = closed s"
    "requests ?a = requests s" "files ?a = files (snd ?G)" "calls ?a = calls (snd ?G)"
    "length (workers ?a) = length (workers s)"
    by (subst fr, simp add: set_worker_def)+
  have ra: "reachable ?a" using r gen by (rule reachable_exec)
  have wa: "w < length (workers ?a)" "workers ?a ! w = (cls, W_LoadAndDelete p (fst ?G))"
    using w af(6) by (simp_all add: set_worker_def)
  obtain s1 c where ex: "exec [Worker w e, Worker w e] ?a = Some s1"
    and c: "pendingThumbs ?a ?k = Some c"
    and s1: "s1 = set_worker w cls W_Recv
                (?a\<lparr>pendingThumbs := (pendingThumbs ?a)(?k := None),
                    closed := insert c (closed ?a)\<rparr>)"
    and r1: "reachable s1"
    using worker_completion [OF ra wa] by blast
  have "exec (replicate 2 (Worker w e)) ?a = Some s1" using ex by (simp add: numeral_2_eq_2)
  then have run: "exec (replicate (n + 2) (Worker w e)) s = Some s1"
    using gen by (rule exec_replicate_add [rotated])
  have inv1: "server_inv s1" using r1 by (rule reachable_inv)
  have f1: "files s1 = files (snd ?G)" "calls s1 = calls (snd ?G)"
    "pendingThumbs s1 ?k = None" "c \<in> closed s1" "workers s1 ! w = (cls, W_Recv)"
    "requests s1 = requests s"
    using s1 af w by (simp_all add: set_worker_def)
  have waiters: "\<forall>j<length (requests s1). \<forall>c' d.
                  requests s1 ! j = Q_Wait ?k c' d \<longrightarrow> c' \<in> closed s1 \<or> closing s1 c'"
  proof (intro allI impI)
    fix j c' d assume j: "j < length (requests s1)" and q: "requests s1 ! j = Q_Wait ?k c' d"
    have "request_ok s1 (requests s1 ! j)" using server_invD(4) [OF inv1 j] .
    then show "c' \<in> closed s1 \<or> closing s1 c'" using q f1(3) by simp
  qed
  have woken: "\<forall>j<length (requests s1). \<forall>t d e'.
                  requests s1 ! j = Q_Wait t c d \<longrightarrow> step (Request j e') s1 \<noteq> None"
    using f1(4) server_invD(1) [OF inv1] by (auto simp: step_def)
  have "n + 2 \<le> 4" using n by auto
  then show ?thesis
    using run f1 c af(1) waiters woken server_invD(1) [OF inv1] by (intro exI [of _ "n + 2"]) auto
qed


lemma mkdir_clip [simp]:
  "os_MkdirAll (filepath_Dir ''/r/.small/clip.mov.jpg'') fs ''/r/.small/clip.mov.jpg''
     = fs ''/r/.small/clip.mov.jpg''"
  using MkdirAll_thumbnail [of "''/r/clip.mov''" fs] by (simp add: thumb_clip)

lemma dequeued_reachable: "reachable dequeued_state"
proof -
  have "exec clip_trace (main_server fs_example) = Some dequeued_state"
    by (simp add: clip_trace_def dequeued_state_def trace_eval thumb_clip class_clip class_eval)
  moreover have "reachable (main_server fs_example)"
    unfolding main_server_def by (rule reachable.start)
  ultimately show ?thesis using reachable_exec by blast
qed

text \<open>The movie worker has received \<open>/r/clip.mov\<close>, and ffmpeg fails.\<close>

theorem worker_always_completes_witness:
  "\<exists>n s1. n \<le> 4 \<and> exec (replicate n (Worker 2 env_tool_fails)) dequeued_state = Some s1
      \<and> length (calls s1) = 1 \<and> files s1 ''/r/.small/clip.mov.jpg'' = StatNotExist
      \<and> pendingThumbs s1 ''/r/.small/clip.mov.jpg'' = None \<and> 0 \<in> closed s1
      \<and> step (Request 0 env_ok) s1 \<noteq> None"
proof -
  have w: "2 < length (workers dequeued_state)"
    "workers dequeued_state ! 2 = (MovieClass, W_Generate ''/r/clip.mov'')"
    by (simp_all add: dequeued_state_def)
  have g: "length (calls (snd (generateThumbnail env_tool_fails ''/r/clip.mov'' dequeued_state))) = 1"
    "files (snd (generateThumbnail env_tool_fails ''/r/clip.mov'' dequeued_state))
       ''/r/.small/clip.mov.jpg'' = StatNotExist"
    by (simp_all add: generateThumbnail_def generateThumbnail_start_def cmd_Run_def Let_def
        dequeued_state_def env_tool_fails_def os_Stat_def thumb_clip class_clip class_eval
        fs_example_def)
  obtain n s1 c where n: "n \<le> 4"
    and ex: "exec (replicate n (Worker 2 env_tool_fails)) dequeued_state = Some s1"
    and f: "files s1 = files (snd (generateThumbnail env_tool_fails ''/r/clip.mov'' dequeued_state))"
      "calls s1 = calls (snd (generateThumbnail env_tool_fails ''/r/clip.mov'' dequeued_state))"
    and c: "pendingThumbs dequeued_state (getThumbnailPath ''/r/clip.mov'') = Some c"
    and p: "pendingThumbs s1 (getThumbnailPath ''/r/clip.mov'') = None" "c \<in> closed s1"
    and rq: "requests s1 = requests dequeued_state"
    and wk: "\<forall>j<length (requests s1). \<forall>t d e'.
                  requests s1 ! j = Q_Wait t c d \<longrightarrow> step (Request j e') s1 \<noteq> None"
    using worker_always_completes [OF dequeued_reachable w, of env_tool_fails] by blast
  have c0: "c = 0" using c by (simp add: dequeued_state_def thumb_clip)
  have "step (Request 0 env_ok) s1 \<noteq> None"
    using wk rq c0 by (simp add: dequeued_state_def)
  then show ?thesis using n ex f g p c0 by (auto simp: thumb_clip)
qed

section \<open>The fallback when the queue is full\<close>

lemma generateThumbnail_set_request:
  "generateThumbnail e p (set_request i pc s)
     = (fst (generateThumbnail e p s), set_request i pc (snd (generateThumbnail e p s)))"
  by (auto simp: generateThumbnail_def cmd_Run_def set_request_def Let_def
      split: prod.splits progress.splits)

text \<open>A request on the fallback runs \<open>generateThumbnail\<close>, in one or two steps.\<close>

lemma request_generation:
  assumes nc: "\<not> crashed s" and i: "i < length (requests s)"
    and at: "requests s ! i = Q_Generate p t c"
  obtains n where "n = 1 \<or> n = 2"
    and "exec (replicate n (Request i e)) s
           = Some (set_request i (Q_Close p t c (fst (generateThumbnail e p s)))
                     (snd (generateThumbnail e p s)))"
proof -
  obtain pr fs1 where g: "generateThumbnail_start e p (files s) = (pr, fs1)"
    by (cases "generateThumbnail_start e p (files s)")
  show ?thesis
  proof (cases pr)
    case (Finished err)
    have "exec (replicate 1 (Request i e)) s
           = Some (set_request i (Q_Close p t c (fst (generateThumbnail e p s)))
                     (snd (generateThumbnail e p s)))"
      using step_Request [OF nc i] at g Finished by (simp add: generateThumbnail_def)
    then show ?thesis using that by blast
  next
    case (Running u)
    let ?m = "s\<lparr>files := fs1\<rparr>"
    let ?a = "set_request i (Q_Run p t c u) ?m"
    have a: "step (Request i e) s = Some ?a"
      using step_Request [OF nc i] at g Running by simp
    have wa: "\<not> crashed ?a" "i < length (requests ?a)" "requests ?a ! i = Q_Run p t c u"
      using nc i by (simp_all add: set_request_def)
    have gen: "generateThumbnail e p s = cmd_Run e u p ?m"
      using g Running by (simp add: generateThumbnail_def)
    have b: "step (Request i e) ?a
               = Some (set_request i (Q_Close p t c (fst (cmd_Run e u p ?m)))
                         (snd (cmd_Run e u p ?m)))"
      using step_Request [OF wa(1,2)] wa(3) by (simp add: cmd_Run_set_request)
    have "exec (replicate 2 (Request i e)) s
           = Some (set_request i (Q_Close p t c (fst (generateThumbnail e p s)))
                     (snd (generateThumbnail e p s)))"
      using a b gen by (simp add: numeral_2_eq_2)
    then show ?thesis using that by blast
  qed
qed

text \<open>The two last steps of the fallback: close the channel, delete the entry.\<close>

lemma fallback_completion:
  assumes r: "reachable s" and i: "i < length (requests s)"
    and at: "requests s ! i = Q_Close p t c err"
  shows "exec [Request i e, Request i e'] s
           = Some (set_request i (respond err t)
                     (s\<lparr>closed := insert c (closed s),
                        pendingThumbs := (pendingThumbs s)(t := None)\<rparr>))"
proof -
  have inv: "server_inv s" using r by (rule reachable_inv)
  have nc: "\<not> crashed s" by (rule server_invD(1) [OF inv])
  have "request_ok s (requests s ! i)" by (rule server_invD(4) [OF inv i])
  then have open_c: "c \<notin> closed s" using at by simp
  let ?a = "set_request i (Q_Delete p t err) (s\<lparr>closed := insert c (closed s)\<rparr>)"
  have a: "step (Request i e) s = Some ?a"
    using step_Request [OF nc i] at open_c by simp
  have wa: "\<not> crashed ?a" "i < length (requests ?a)" "requests ?a ! i = Q_Delete p t err"
    using nc i by (simp_all add: set_request_def)
  have "step (Request i e') ?a
          = Some (set_request i (respond err t)
                    (s\<lparr>closed := insert c (closed s),
                       pendingThumbs := (pendingThumbs s)(t := None)\<rparr>))"
    using step_Request [OF wa(1,2)] wa(3) by (simp add: set_request_def)
  then show ?thesis using a by simp
qed

text \<open>
  Claim C4. A request that has stored the entry and finds the queue of its class full
  runs \<open>generateThumbnail\<close> itself, closes its channel, deletes the entry and returns
  the result of \<open>generateThumbnail\<close>, in at most five steps of its own, none of which
  can block or panic; the queues and the workers are not touched.
\<close>
theorem full_queue_fallback:
  assumes r: "reachable s" and i: "i < length (requests s)"
    and at: "requests s ! i = Q_Route p t c"
    and cls: "spec_media_class p = Some cls"
    and full: "cap (queue_of cls s) \<le> length (buf (queue_of cls s))"
  shows "\<exists>n s1. n \<le> 5 \<and> exec (replicate n (Request i e)) s = Some s1
           \<and> requests s1 ! i = respond (fst (generateThumbnail e p s)) t
           \<and> files s1 = files (snd (generateThumbnail e p s))
           \<and> calls s1 = calls (snd (generateThumbnail e p s))
           \<and> c \<in> closed s1 \<and> pendingThumbs s1 t = None \<and> \<not> crashed s1
           \<and> imageThumbnailQueue s1 = imageThumbnailQueue s
           \<and> movieThumbnailQueue s1 = movieThumbnailQueue s
           \<and> workers s1 = workers s"
proof -
  let ?G = "generateThumbnail e p s"
  have nc: "\<not> crashed s" using server_invD(1) [OF reachable_inv [OF r]] .
  let ?a = "set_request i (Q_Generate p t c) s"
  have "try_send (queue_of cls s) p = None" using full by (simp add: try_send_def)
  then have "step (Request i e) s = Some ?a"
    using step_Request [OF nc i] at cls route_by_class [of i e p t c s]
    by (simp add: enqueue_or_fallback_def)
  then have a: "exec (replicate 1 (Request i e)) s = Some ?a" by simp
  have wa: "\<not> crashed ?a" "i < length (requests ?a)" "requests ?a ! i = Q_Generate p t c"
    using nc i by (simp_all add: set_request_def)
  let ?b = "set_request i (Q_Close p t c (fst ?G)) (snd ?G)"
  obtain n where n: "n = 1 \<or> n = 2"
    and "exec (replicate n (Request i e)) ?a
           = Some (set_request i (Q_Close p t c (fst (generateThumbnail e p ?a)))
                     (snd (generateThumbnail e p ?a)))"
    using request_generation [OF wa] by blast
  then have b: "exec (replicate n (Request i e)) ?a = Some ?b"
    by (simp add: generateThumbnail_set_request)
  have ab: "exec (replicate (1 + n) (Request i e)) s = Some ?b"
    using a b by (rule exec_replicate_add)
  have rb: "reachable ?b" using r ab by (rule reachable_exec)
  have fr: "snd ?G = s\<lparr>files := files (snd ?G), calls := calls (snd ?G)\<rparr>"
    by (rule generateThumbnail_frame)
  have bf: "closed ?b = closed s" "pendingThumbs ?b = pendingThumbs s"
    "files ?b = files (snd ?G)" "calls ?b = calls (snd ?G)" "workers ?b = workers s"
    "imageThumbnailQueue ?b = imageThumbnailQueue s"
    "movieThumbnailQueue ?b = movieThumbnailQueue s" "crashed ?b = crashed s"
    "length (requests ?b) = length (requests s)"
    by (subst fr, simp add: set_request_def)+
  have wb: "i < length (requests ?b)" "requests ?b ! i = Q_Close p t c (fst ?G)"
    using i bf(9) by (simp_all add: set_request_def)
  let ?c = "set_request i (respond (fst ?G) t)
              (?b\<lparr>closed := insert c (closed ?b),
                  pendingThumbs := (pendingThumbs ?b)(t := None)\<rparr>)"
  have "exec [Request i e, Request i e] ?b = Some ?c"
    using fallback_completion [OF rb wb] .
  then have "exec (replicate 2 (Request i e)) ?b = Some ?c" by (simp add: numeral_2_eq_2)
  then have run: "exec (replicate ((1 + n) + 2) (Request i e)) s = Some ?c"
    using ab by (rule exec_replicate_add [rotated])
  have cf: "requests ?c ! i = respond (fst ?G) t" "files ?c = files (snd ?G)"
    "calls ?c = calls (snd ?G)" "c \<in> closed ?c" "pendingThumbs ?c t = None"
    "\<not> crashed ?c" "imageThumbnailQueue ?c = imageThumbnailQueue s"
    "movieThumbnailQueue ?c = movieThumbnailQueue s" "workers ?c = workers s"
    using bf wb(1) nc by (simp_all add: set_request_def)
  have "(1 + n) + 2 \<le> 5" using n by auto
  then show ?thesis using run cf by blast
qed

lemma thumb_dune: "getThumbnailPath ''/r/dune.png'' = ''/r/.small/dune.png.jpg''"
  by (simp add: path_eval)

lemma class_dune: "strings_ToLower (filepath_Ext ''/r/dune.png'') = ''.png''"
  by (simp add: path_eval)

lemma class_beach: "strings_ToLower (filepath_Ext ''/r/beach.jpg'') = ''.jpg''"
  by (simp add: path_eval)

lemma mkdir_dune [simp]:
  "os_MkdirAll (filepath_Dir ''/r/.small/dune.png.jpg'') fs ''/r/.small/dune.png.jpg''
     = fs ''/r/.small/dune.png.jpg''"
  using MkdirAll_thumbnail [of "''/r/dune.png''" fs] by (simp add: thumb_dune)

lemma full_reachable: "reachable full_state"
proof -
  have "exec full_trace (new_server 1 1 1 fs_example) = Some full_state"
    by (simp add: full_trace_def full_state_def new_server_def trace_eval thumb_beach class_beach
        thumb_dune class_dune class_eval)
  then show ?thesis using reachable_exec [OF reachable.start] by blast
qed

text \<open>Queues of capacity 1, the image queue full, \<open>/r/dune.png\<close> requested.\<close>

theorem full_queue_fallback_witness:
  "\<exists>n s1. n \<le> 5 \<and> exec (replicate n (Request 1 env_ok)) full_state = Some s1
      \<and> requests s1 ! 1 = Responded (ServeFile ''/r/.small/dune.png.jpg'')
      \<and> files s1 ''/r/.small/dune.png.jpg'' = StatOk \<and> length (calls s1) = 1
      \<and> 1 \<in> closed s1 \<and> pendingThumbs s1 ''/r/.small/dune.png.jpg'' = None
      \<and> buf (imageThumbnailQueue s1) = [''/r/beach.jpg'']"
proof -
  have h: "1 < length (requests full_state)"
    "requests full_state ! 1 = Q_Route ''/r/dune.png'' ''/r/.small/dune.png.jpg'' 1"
    "cap (queue_of ImageClass full_state) \<le> length (buf (queue_of ImageClass full_state))"
    "buf (imageThumbnailQueue full_state) = [''/r/beach.jpg'']"
    by (simp_all add: full_state_def queue_of_def)
  have m: "spec_media_class ''/r/dune.png'' = Some ImageClass"
    by (simp add: spec_media_class_def class_dune class_eval)
  have g: "fst (generateThumbnail env_ok ''/r/dune.png'' full_state) = None"
    "length (calls (snd (generateThumbnail env_ok ''/r/dune.png'' full_state))) = 1"
    "files (snd (generateThumbnail env_ok ''/r/dune.png'' full_state))
       ''/r/.small/dune.png.jpg'' = StatOk"
    by (simp_all add: generateThumbnail_def generateThumbnail_start_def cmd_Run_def Let_def
        full_state_def env_ok_def os_Stat_def os_Open_def os_MkdirAll_def thumb_dune class_dune
        class_eval fs_example_def)
  show ?thesis
    using full_queue_fallback [OF full_reachable h(1,2) m h(3), of env_ok] g h(4)
    by (auto simp: respond_def)
qed

section \<open>At most one generation for a thumbnail path\<close>

lemma no_success_snoc:
  "no_success (cs @ [r]) k = (no_success cs k \<and> (inv_ok r \<longrightarrow> inv_output r \<noteq> k))"
  by (auto simp: no_success_def)

lemma run_once_snoc:
  "run_once (cs @ [r]) = (run_once cs \<and> no_success cs (inv_output r))"
  by (induction cs) (auto simp: no_success_def)

lemma run_once_successes:
  "run_once cs \<Longrightarrow> length (filter (\<lambda>r. inv_ok r \<and> inv_output r = k) cs) \<le> 1"
proof (induction cs)
  case Nil
  then show ?case by simp
next
  case (Cons r rs)
  show ?case
  proof (cases "inv_ok r \<and> inv_output r = k")
    case True
    then have "filter (\<lambda>r. inv_ok r \<and> inv_output r = k) rs = []"
      using Cons.prems by (auto simp: filter_empty_conv)
    then show ?thesis using True by simp
  next
    case False
    then show ?thesis using Cons by auto
  qed
qed

lemma run_once_split:
  "run_once (xs @ r # ys) \<Longrightarrow> inv_ok r \<Longrightarrow> r' \<in> set ys \<Longrightarrow> inv_output r' \<noteq> inv_output r"
  by (induction xs) auto

text \<open>Steps that neither start nor finish a tool run keep the record and the files.\<close>

lemma purity_keep:
  assumes p: "purity s" and c: "calls s1 = calls s" and f: "files s1 = files s"
    and rq: "\<And>j. j < length (requests s1) \<Longrightarrow>
               (\<forall>q t c u. requests s1 ! j \<noteq> Q_Run q t c u)
               \<or> (j < length (requests s) \<and> requests s1 ! j = requests s ! j)"
    and wk: "\<And>v. v < length (workers s1) \<Longrightarrow>
               (\<forall>q u. snd (workers s1 ! v) \<noteq> W_Run q u)
               \<or> (v < length (workers s) \<and> workers s1 ! v = workers s ! v)"
  shows "purity s1"
proof -
  have 1: "success_cached s1" "run_once (calls s1)"
    using p c f by (simp_all add: purity_def success_cached_def)
  have 2: "request_run_ok s1 (requests s1 ! j)" if j: "j < length (requests s1)" for j
  proof (cases "requests s1 ! j")
    case (Q_Run q t c' u)
    then have "j < length (requests s)" "requests s ! j = Q_Run q t c' u"
      using rq [OF j] by auto
    then have "request_run_ok s (Q_Run q t c' u)" using p unfolding purity_def by metis
    then show ?thesis using Q_Run c by simp
  qed simp_all
  have 3: "worker_run_ok s1 (snd (workers s1 ! v))" if v: "v < length (workers s1)" for v
  proof (cases "snd (workers s1 ! v)")
    case (W_Run q u)
    then have "v < length (workers s)" "snd (workers s ! v) = W_Run q u"
      using wk [OF v] by auto
    then have "worker_run_ok s (W_Run q u)" using p unfolding purity_def by metis
    then show ?thesis using W_Run c by simp
  qed simp_all
  show ?thesis using 1 2 3 by (simp add: purity_def)
qed

lemma request_step_quiet:
  assumes "request_step i e pc s = Some s1" and "i < length (requests s)"
    and "\<And>p t c. pc \<noteq> Q_Generate p t c" and "\<And>p t c u. pc \<noteq> Q_Run p t c u"
  shows "calls s1 = calls s" and "files s1 = files s"
    and "requests s1 ! i \<noteq> Q_Run q t' c' u'"
  using assms
  by (cases pc; auto simp: step_eval Let_def
      split: if_splits option.splits prod.splits mclass.splits)+

lemma worker_step_quiet:
  assumes "worker_step w e cls pc s = Some s1" and "w < length (workers s)"
    and "workers s ! w = (cls, pc)"
    and "\<And>p. pc \<noteq> W_Generate p" and "\<And>p u. pc \<noteq> W_Run p u"
  shows "calls s1 = calls s" and "files s1 = files s"
    and "snd (workers s1 ! w) \<noteq> W_Run q u'"
  using assms
  by (cases pc; auto simp: step_eval Let_def
      split: if_splits option.splits prod.splits mclass.splits list.splits)+

lemma success_cached_start:
  assumes "success_cached s"
  shows "success_cached (s\<lparr>files := snd (generateThumbnail_start e p (files s))\<rparr>)"
  using assms by (simp add: success_cached_def start_StatOk)

lemma no_success_start:
  assumes "success_cached s" and "generateThumbnail_start e p (files s) = (Running u, fs1)"
  shows "no_success (calls s) (getThumbnailPath p)"
proof -
  have "files s (getThumbnailPath p) \<noteq> StatOk"
    using start_Running [of e p "files s" u] assms(2) by simp
  then show ?thesis using assms(1) by (auto simp: no_success_def success_cached_def)
qed

lemma success_cached_Run:
  assumes "success_cached s"
  shows "success_cached (snd (cmd_Run e u p s))"
  using assms by (auto simp: success_cached_def cmd_Run_def Let_def)

lemma calls_Run:
  "\<exists>r. calls (snd (cmd_Run e u p s)) = calls s @ [r] \<and> inv_output r = getThumbnailPath p"
  by (simp add: cmd_Run_def Let_def)

text \<open>The start of \<open>generateThumbnail\<close> by a request on the fallback.\<close>

lemma purity_request_generate:
  assumes pu: "purity s" and i: "i < length (requests s)"
    and at: "requests s ! i = Q_Generate p t c"
    and g: "generateThumbnail_start e p (files s) = (pr, fs1)"
    and pc: "pc = (case pr of Finished err \<Rightarrow> Q_Close p t c err | Running u \<Rightarrow> Q_Run p t c u)"
  shows "purity (set_request i pc (s\<lparr>files := fs1\<rparr>))"
proof -
  let ?s = "set_request i pc (s\<lparr>files := fs1\<rparr>)"
  have sc: "success_cached s" using pu by (simp add: purity_def)
  have f: "calls ?s = calls s" "workers ?s = workers s"
    "length (requests ?s) = length (requests s)" "files ?s = fs1"
    by (simp_all add: set_request_def)
  have 1: "success_cached ?s"
    using success_cached_start [OF sc, of e p] g f by (simp add: success_cached_def)
  have 2: "request_run_ok ?s (requests ?s ! j)" if j: "j < length (requests ?s)" for j
  proof (cases "j = i")
    case True
    then have here: "requests ?s ! j = pc" using i by (simp add: set_request_def)
    show ?thesis
    proof (cases pr)
      case (Finished err)
      then show ?thesis using here pc by simp
    next
      case (Running u)
      then show ?thesis using here pc no_success_start [OF sc] g f by simp
    qed
  next
    case False
    then have same: "requests ?s ! j = requests s ! j" by (simp add: set_request_def)
    have "request_run_ok s (requests s ! j)" using pu j f unfolding purity_def by metis
    then show ?thesis using same f by (cases "requests s ! j") simp_all
  qed
  have 3: "worker_run_ok ?s (snd (workers ?s ! v))" if v: "v < length (workers ?s)" for v
  proof -
    have "worker_run_ok s (snd (workers s ! v))" using pu v f unfolding purity_def by metis
    then show ?thesis using f by (cases "snd (workers s ! v)") simp_all
  qed
  show ?thesis using 1 2 3 pu f by (simp add: purity_def)
qed

text \<open>The start of \<open>generateThumbnail\<close> by a worker.\<close>

lemma purity_worker_generate:
  assumes pu: "purity s" and w: "w < length (workers s)"
    and at: "workers s ! w = (cls, W_Generate p)"
    and g: "generateThumbnail_start e p (files s) = (pr, fs1)"
    and pc: "pc = (case pr of Finished err \<Rightarrow> W_LoadAndDelete p err | Running u \<Rightarrow> W_Run p u)"
  shows "purity (set_worker w cls pc (s\<lparr>files := fs1\<rparr>))"
proof -
  let ?s = "set_worker w cls pc (s\<lparr>files := fs1\<rparr>)"
  have sc: "success_cached s" using pu by (simp add: purity_def)
  have f: "calls ?s = calls s" "requests ?s = requests s"
    "length (workers ?s) = length (workers s)" "files ?s = fs1"
    by (simp_all add: set_worker_def)
  have 1: "success_cached ?s"
    using success_cached_start [OF sc, of e p] g f by (simp add: success_cached_def)
  have 2: "request_run_ok ?s (requests ?s ! j)" if j: "j < length (requests ?s)" for j
  proof -
    have "request_run_ok s (requests s ! j)" using pu j f unfolding purity_def by metis
    then show ?thesis using f by (cases "requests s ! j") simp_all
  qed
  have 3: "worker_run_ok ?s (snd (workers ?s ! v))" if v: "v < length (workers ?s)" for v
  proof (cases "v = w")
    case True
    then have here: "snd (workers ?s ! v) = pc" using w by (simp add: set_worker_def)
    show ?thesis
    proof (cases pr)
      case (Finished err)
      then show ?thesis using here pc by simp
    next
      case (Running u)
      then show ?thesis using here pc no_success_start [OF sc] g f by simp
    qed
  next
    case False
    then have same: "workers ?s ! v = workers s ! v" by (simp add: set_worker_def)
    have "worker_run_ok s (snd (workers s ! v))" using pu v f unfolding purity_def by metis
    then show ?thesis using same f by (cases "snd (workers s ! v)") simp_all
  qed
  show ?thesis using 1 2 3 pu f by (simp add: purity_def)
qed

text \<open>
  The end of a tool run for the thumbnail path \<open>k\<close>, by its owner: nobody else is
  running a tool for \<open>k\<close>.
\<close>

lemma purity_run:
  assumes pu: "purity s" and ns: "no_success (calls s) k"
    and s1: "calls s1 = calls s @ [r]" "inv_output r = k" "success_cached s1"
    and rq: "\<And>j. j < length (requests s1) \<Longrightarrow>
               (\<forall>q t c u. requests s1 ! j \<noteq> Q_Run q t c u)
               \<or> (j < length (requests s) \<and> requests s1 ! j = requests s ! j
                    \<and> request_owns k (requests s ! j) = 0 \<and> request_ok s (requests s ! j))"
    and wk: "\<And>v. v < length (workers s1) \<Longrightarrow>
               (\<forall>q u. snd (workers s1 ! v) \<noteq> W_Run q u)
               \<or> (v < length (workers s) \<and> workers s1 ! v = workers s ! v
                    \<and> worker_owns k (workers s ! v) = 0)"
  shows "purity s1"
proof -
  have 1: "run_once (calls s1)" using pu ns s1 by (simp add: purity_def run_once_snoc)
  have 2: "request_run_ok s1 (requests s1 ! j)" if j: "j < length (requests s1)" for j
  proof (cases "requests s1 ! j")
    case (Q_Run q t c' u)
    then have old: "j < length (requests s)" "requests s ! j = Q_Run q t c' u"
      "request_owns k (requests s ! j) = 0" "request_ok s (requests s ! j)"
      using rq [OF j] by auto
    then have "getThumbnailPath q \<noteq> k" by (auto split: if_splits)
    moreover have "request_run_ok s (Q_Run q t c' u)" using pu old unfolding purity_def by metis
    ultimately show ?thesis using Q_Run s1 by (simp add: no_success_snoc)
  qed simp_all
  have 3: "worker_run_ok s1 (snd (workers s1 ! v))" if v: "v < length (workers s1)" for v
  proof (cases "snd (workers s1 ! v)")
    case (W_Run q u)
    then have old: "v < length (workers s)" "snd (workers s ! v) = W_Run q u"
      "worker_owns k (workers s ! v) = 0"
      using wk [OF v] by auto
    then have "getThumbnailPath q \<noteq> k"
      by (cases "workers s ! v") (auto split: if_splits)
    moreover have "worker_run_ok s (W_Run q u)" using pu old unfolding purity_def by metis
    ultimately show ?thesis using W_Run s1 by (simp add: no_success_snoc)
  qed simp_all
  show ?thesis using 1 2 3 s1 by (simp add: purity_def)
qed


lemma purity_request_step:
  assumes inv: "server_inv s" and pu: "purity s" and i: "i < length (requests s)"
    and st: "request_step i e (requests s ! i) s = Some s1"
  shows "purity s1"
proof -
  have fr: "length (requests s1) = length (requests s)" "workers s1 = workers s"
    "\<And>j. j \<noteq> i \<Longrightarrow> requests s1 ! j = requests s ! j"
    using request_step_frame [OF st] by simp_all
  consider (gen) p t c where "requests s ! i = Q_Generate p t c"
    | (run) p t c u where "requests s ! i = Q_Run p t c u"
    | (quiet) "\<And>p t c. requests s ! i \<noteq> Q_Generate p t c"
        "\<And>p t c u. requests s ! i \<noteq> Q_Run p t c u"
    by (cases "requests s ! i") auto
  then show ?thesis
  proof cases
    case gen
    obtain pr fs1 where g: "generateThumbnail_start e p (files s) = (pr, fs1)"
      by (cases "generateThumbnail_start e p (files s)")
    have "s1 = set_request i (case pr of Finished err \<Rightarrow> Q_Close p t c err
                                       | Running u \<Rightarrow> Q_Run p t c u) (s\<lparr>files := fs1\<rparr>)"
      using st gen g by (cases pr) auto
    then show ?thesis using purity_request_generate [OF pu i gen g] by simp
  next
    case run
    let ?k = "getThumbnailPath p"
    have ok: "t = ?k" using server_invD(4) [OF inv i] run by auto
    have own: "request_owns ?k (requests s ! i) = 1" using run ok by simp
    have ns: "no_success (calls s) ?k" using pu i run unfolding purity_def by fastforce
    have s1: "s1 = set_request i (Q_Close p t c (fst (cmd_Run e u p s))) (snd (cmd_Run e u p s))"
      using st run by (auto split: prod.splits)
    obtain r where r: "calls s1 = calls s @ [r]" "inv_output r = ?k"
      using calls_Run [of e u p s] s1 by (auto simp: set_request_def)
    have sc: "success_cached s1"
      using success_cached_Run [of s e u p] pu s1
      by (simp add: purity_def success_cached_def set_request_def)
    show ?thesis
    proof (rule purity_run [OF pu ns r sc])
      fix j assume j: "j < length (requests s1)"
      show "(\<forall>q t c u. requests s1 ! j \<noteq> Q_Run q t c u)
               \<or> (j < length (requests s) \<and> requests s1 ! j = requests s ! j
                    \<and> request_owns ?k (requests s ! j) = 0 \<and> request_ok s (requests s ! j))"
      proof (cases "j = i")
        case True
        then show ?thesis using s1 i by (simp add: set_request_def)
      next
        case False
        then show ?thesis
          using fr j request_owner_excludes(1) [OF server_invD(2) [OF inv] i own, of j]
            server_invD(4) [OF inv, of j] by simp
      qed
    next
      fix v assume v: "v < length (workers s1)"
      then show "(\<forall>q u. snd (workers s1 ! v) \<noteq> W_Run q u)
               \<or> (v < length (workers s) \<and> workers s1 ! v = workers s ! v
                    \<and> worker_owns ?k (workers s ! v) = 0)"
        using fr request_owner_excludes(2) [OF server_invD(2) [OF inv] i own, of v] by simp
    qed
  next
    case quiet
    have q: "calls s1 = calls s" "files s1 = files s"
      "\<And>q t' c' u'. requests s1 ! i \<noteq> Q_Run q t' c' u'"
      using request_step_quiet [OF st i quiet] by simp_all
    show ?thesis
    proof (rule purity_keep [OF pu q(1,2)])
      fix j assume "j < length (requests s1)"
      then show "(\<forall>q t c u. requests s1 ! j \<noteq> Q_Run q t c u)
               \<or> (j < length (requests s) \<and> requests s1 ! j = requests s ! j)"
        using fr q(3) by (cases "j = i") auto
    next
      fix v assume "v < length (workers s1)"
      then show "(\<forall>q u. snd (workers s1 ! v) \<noteq> W_Run q u)
               \<or> (v < length (workers s) \<and> workers s1 ! v = workers s ! v)"
        using fr by simp
    qed
  qed
qed

lemma purity_worker_step:
  assumes inv: "server_inv s" and pu: "purity s" and w: "w < length (workers s)"
    and at: "workers s ! w = (cls, pc)"
    and st: "worker_step w e cls pc s = Some s1"
  shows "purity s1"
proof -
  have fr: "length (workers s1) = length (workers s)" "requests s1 = requests s"
    "\<And>v. v \<noteq> w \<Longrightarrow> workers s1 ! v = workers s ! v"
    using worker_step_frame [OF st] by simp_all
  consider (gen) p where "pc = W_Generate p" | (run) p u where "pc = W_Run p u"
    | (quiet) "\<And>p. pc \<noteq> W_Generate p" "\<And>p u. pc \<noteq> W_Run p u"
    by (cases pc) auto
  then show ?thesis
  proof cases
    case gen
    obtain pr fs1 where g: "generateThumbnail_start e p (files s) = (pr, fs1)"
      by (cases "generateThumbnail_start e p (files s)")
    have "s1 = set_worker w cls (case pr of Finished err \<Rightarrow> W_LoadAndDelete p err
                                          | Running u \<Rightarrow> W_Run p u) (s\<lparr>files := fs1\<rparr>)"
      using st gen g by (cases pr) auto
    then show ?thesis using purity_worker_generate [OF pu w _ g] at gen by simp
  next
    case run
    let ?k = "getThumbnailPath p"
    have own: "worker_owns ?k (workers s ! w) = 1" using run at by simp
    have "worker_run_ok s (snd (workers s ! w))" using pu w unfolding purity_def by metis
    then have ns: "no_success (calls s) ?k" using at run by simp
    have s1: "s1 = set_worker w cls (W_LoadAndDelete p (fst (cmd_Run e u p s))) (snd (cmd_Run e u p s))"
      using st run by (auto split: prod.splits)
    obtain r where r: "calls s1 = calls s @ [r]" "inv_output r = ?k"
      using calls_Run [of e u p s] s1 by (auto simp: set_worker_def)
    have sc: "success_cached s1"
      using success_cached_Run [of s e u p] pu s1
      by (simp add: purity_def success_cached_def set_worker_def)
    show ?thesis
    proof (rule purity_run [OF pu ns r sc])
      fix j assume j: "j < length (requests s1)"
      then show "(\<forall>q t c u. requests s1 ! j \<noteq> Q_Run q t c u)
               \<or> (j < length (requests s) \<and> requests s1 ! j = requests s ! j
                    \<and> request_owns ?k (requests s ! j) = 0 \<and> request_ok s (requests s ! j))"
        using fr worker_owner_excludes(1) [OF server_invD(2) [OF inv] w own, of j]
          server_invD(4) [OF inv, of j] by simp
    next
      fix v assume v: "v < length (workers s1)"
      show "(\<forall>q u. snd (workers s1 ! v) \<noteq> W_Run q u)
               \<or> (v < length (workers s) \<and> workers s1 ! v = workers s ! v
                    \<and> worker_owns ?k (workers s ! v) = 0)"
      proof (cases "v = w")
        case True
        then show ?thesis using s1 w by (simp add: set_worker_def)
      next
        case False
        then show ?thesis
          using fr v worker_owner_excludes(2) [OF server_invD(2) [OF inv] w own, of v] by simp
      qed
    qed
  next
    case quiet
    have q: "calls s1 = calls s" "files s1 = files s"
      "\<And>q u'. snd (workers s1 ! w) \<noteq> W_Run q u'"
      using worker_step_quiet [OF st w at quiet] by simp_all
    show ?thesis
    proof (rule purity_keep [OF pu q(1,2)])
      fix j assume "j < length (requests s1)"
      then show "(\<forall>q t c u. requests s1 ! j \<noteq> Q_Run q t c u)
               \<or> (j < length (requests s) \<and> requests s1 ! j = requests s ! j)"
        using fr by simp
    next
      fix v assume "v < length (workers s1)"
      then show "(\<forall>q u. snd (workers s1 ! v) \<noteq> W_Run q u)
               \<or> (v < length (workers s) \<and> workers s1 ! v = workers s ! v)"
        using fr q(3) by (cases "v = w") auto
    qed
  qed
qed

lemma purity_step:
  assumes inv: "server_inv s" and pu: "purity s" and st: "step ev s = Some s1"
  shows "purity s1"
proof (cases ev)
  case (Accept p)
  then have s1: "s1 = s\<lparr>requests := requests s @ [H_Stat p]\<rparr>"
    using st by (auto simp: step_def split: if_splits)
  show ?thesis
  proof (rule purity_keep [OF pu])
    fix j assume "j < length (requests s1)"
    then show "(\<forall>q t c u. requests s1 ! j \<noteq> Q_Run q t c u)
               \<or> (j < length (requests s) \<and> requests s1 ! j = requests s ! j)"
      using s1 by (cases "j < length (requests s)") (auto simp: nth_append)
  qed (use s1 in auto)
next
  case (Request i e)
  then show ?thesis using st purity_request_step [OF inv pu]
    by (auto simp: step_def split: if_splits)
next
  case (Timeout i)
  then have i: "i < length (requests s)"
    and s1: "s1 = set_request i (Responded (InternalServerError ErrTimeout)) s"
    using st timeout_step_frame [of i "requests s ! i" s s1]
    by (auto simp: step_def split: if_splits)
  show ?thesis
  proof (rule purity_keep [OF pu])
    fix j assume "j < length (requests s1)"
    then show "(\<forall>q t c u. requests s1 ! j \<noteq> Q_Run q t c u)
               \<or> (j < length (requests s) \<and> requests s1 ! j = requests s ! j)"
      using s1 i by (cases "j = i") (auto simp: set_request_def)
  qed (use s1 in \<open>auto simp: set_request_def\<close>)
next
  case (Worker w e)
  then show ?thesis using st purity_worker_step [OF inv pu]
    by (auto simp: step_def imageThumbnailWorker_def movieThumbnailWorker_def
        split: if_splits prod.splits mclass.splits)
next
  case (Tick d)
  then have "s1 = s\<lparr>now := now s + d\<rparr>" using st by (auto simp: step_def split: if_splits)
  then show ?thesis using pu by (intro purity_keep [OF pu]) auto
qed

lemma new_server_purity: "purity (new_server queueSize numImageWorkers numMovieWorkers fs0)"
proof -
  let ?s = "new_server queueSize numImageWorkers numMovieWorkers fs0"
  have "snd (workers ?s ! v) = W_Recv" if "v < length (workers ?s)" for v
    using that by (auto simp: new_server_def nth_append)
  then show ?thesis
    by (simp add: purity_def success_cached_def) (simp add: new_server_def)
qed

lemma reachable_purity: "reachable s \<Longrightarrow> purity s"
proof (induction rule: reachable.induct)
  case (start queueSize numImageWorkers numMovieWorkers fs0)
  show ?case by (rule new_server_purity)
next
  case (step s ev s1)
  then show ?case using purity_step [OF reachable_inv] by blast
qed


text \<open>Generation tasks are counted among the owners.\<close>

lemma request_generates_le: "request_generates k pc \<le> request_owns k pc"
  by (cases pc) simp_all

lemma worker_generates_le: "worker_generates k x \<le> worker_owns k x"
proof -
  obtain cls pc where "x = (cls, pc)" by (cases x)
  then show ?thesis by (cases pc) simp_all
qed

lemma sum_list_map_le:
  fixes f g :: "'a \<Rightarrow> nat"
  shows "(\<And>x. f x \<le> g x) \<Longrightarrow> sum_list (map f xs) \<le> sum_list (map g xs)"
  by (induction xs) (simp_all add: add_mono)

lemma generation_tasks_le_owners: "generation_tasks s k \<le> owners s k"
  using sum_list_map_le [of "request_generates k" "request_owns k" "requests s"]
    sum_list_map_le [of "worker_generates k" "worker_owns k" "workers s"]
    request_generates_le worker_generates_le
  by (simp add: generation_tasks_def owners_def add_mono)

lemma tasks_set_request:
  "i < length (requests s) \<Longrightarrow>
     generation_tasks (set_request i pc s) k + request_generates k (requests s ! i)
       = generation_tasks s k + request_generates k pc"
  using sum_list_update_nat [of i "requests s" "request_generates k" pc]
  by (simp add: generation_tasks_def set_request_def)

lemma tasks_set_worker:
  "w < length (workers s) \<Longrightarrow>
     generation_tasks (set_worker w cls pc s) k + worker_generates k (workers s ! w)
       = generation_tasks s k + worker_generates k (cls, pc)"
  using sum_list_update_nat [of w "workers s" "worker_generates k" "(cls, pc)"]
  by (simp add: generation_tasks_def set_worker_def)

lemma tasks_cong:
  "requests s1 = requests s \<Longrightarrow> workers s1 = workers s \<Longrightarrow>
   imageThumbnailQueue s1 = imageThumbnailQueue s \<Longrightarrow>
   movieThumbnailQueue s1 = movieThumbnailQueue s \<Longrightarrow>
   generation_tasks s1 k = generation_tasks s k"
  by (simp add: generation_tasks_def)

lemma tasks_same:
  assumes "i < length (requests s)" and "request_generates k pc \<le> request_generates k (requests s ! i)"
    and "requests m = requests s" "workers m = workers s"
    "imageThumbnailQueue m = imageThumbnailQueue s" "movieThumbnailQueue m = movieThumbnailQueue s"
  shows "generation_tasks (set_request i pc m) k \<le> generation_tasks s k"
  using tasks_set_request [of i m pc k] tasks_cong [OF assms(3-6), of k] assms(1,2,3) by simp

lemma tasks_same_worker:
  assumes "w < length (workers s)"
    and "worker_generates k (cls, pc) \<le> worker_generates k (workers s ! w)"
    and "requests m = requests s" "workers m = workers s"
    "imageThumbnailQueue m = imageThumbnailQueue s" "movieThumbnailQueue m = movieThumbnailQueue s"
  shows "generation_tasks (set_worker w cls pc m) k \<le> generation_tasks s k"
  using tasks_set_worker [of w m cls pc k] tasks_cong [OF assms(3-6), of k] assms(1,2,4) by simp

text \<open>Only the routing step of a request adds a generation task.\<close>

lemma request_step_tasks:
  assumes i: "i < length (requests s)"
    and st: "request_step i e (requests s ! i) s = Some s1"
    and nr: "\<And>p t c. requests s ! i \<noteq> Q_Route p t c"
  shows "generation_tasks s1 k \<le> generation_tasks s k"
proof (cases "requests s ! i")
  case (Q_Route p t c)
  then show ?thesis using nr by simp
next
  case (Q_Generate p t c)
  obtain pr fs1 where g: "generateThumbnail_start e p (files s) = (pr, fs1)"
    by (cases "generateThumbnail_start e p (files s)")
  show ?thesis using st Q_Generate g i
    by (cases pr) (auto intro!: tasks_same)
next
  case (Q_Run p t c u)
  then show ?thesis using st i
    by (auto simp: cmd_Run_def Let_def split: if_splits intro!: tasks_same)
next
  case (Q_LoadOrStore p t)
  then show ?thesis using st i
    by (auto simp: Let_def split: option.splits intro!: tasks_same)
next
  case (Q_Wait t c d)
  then show ?thesis using st i
    by (auto simp: respond_def split: if_splits intro!: tasks_same)
next
  case (Q_Delete p t err)
  then show ?thesis using st i
    by (cases err) (auto simp: respond_def intro!: tasks_same)
qed (use st i in \<open>auto simp: Let_def os_IsNotExist_def split: if_splits intro!: tasks_same\<close>)

lemma worker_step_tasks:
  assumes w: "w < length (workers s)" and at: "workers s ! w = (cls, pc)"
    and st: "worker_step w e cls pc s = Some s1"
  shows "generation_tasks s1 k \<le> generation_tasks s k"
proof (cases pc)
  case W_Recv
  then obtain p rest where q: "buf (queue_of cls s) = p # rest"
    and s1: "s1 = set_worker w cls (W_Generate p)
                    (set_queue cls ((queue_of cls s)\<lparr>buf := rest\<rparr>) s)"
    using st by (auto split: list.splits)
  let ?m = "set_queue cls ((queue_of cls s)\<lparr>buf := rest\<rparr>) s"
  have m: "workers ?m = workers s"
    "generation_tasks ?m k + (if getThumbnailPath p = k then 1 else 0) = generation_tasks s k"
    using q by (cases cls; simp add: set_queue_def queue_of_def generation_tasks_def queued_def)+
  show ?thesis using tasks_set_worker [of w ?m cls "W_Generate p" k] w at W_Recv m s1 by simp
next
  case (W_Generate p)
  obtain pr fs1 where g: "generateThumbnail_start e p (files s) = (pr, fs1)"
    by (cases "generateThumbnail_start e p (files s)")
  show ?thesis using st W_Generate g w at
    by (cases pr) (auto intro!: tasks_same_worker)
next
  case (W_Run p u)
  then show ?thesis using st w at
    by (auto simp: cmd_Run_def Let_def split: if_splits intro!: tasks_same_worker)
next
  case (W_LoadAndDelete p err)
  then show ?thesis using st w at
    by (auto simp: Let_def split: option.splits intro!: tasks_same_worker)
next
  case (W_Close c)
  show ?thesis
  proof (cases "c \<in> closed s")
    case True
    then have "s1 = s\<lparr>crashed := True\<rparr>" using st W_Close by simp
    then show ?thesis by (simp add: generation_tasks_def)
  next
    case False
    then show ?thesis using st w at W_Close by (auto intro!: tasks_same_worker)
  qed
qed

lemma step_tasks:
  assumes st: "step ev s = Some s1" and more: "generation_tasks s k < generation_tasks s1 k"
  obtains i e p t c where "ev = Request i e" and "i < length (requests s)"
    and "requests s ! i = Q_Route p t c"
proof (cases ev)
  case (Accept p)
  then have "generation_tasks s1 k = generation_tasks s k"
    using st by (auto simp: step_def generation_tasks_def split: if_splits)
  then show ?thesis using more by simp
next
  case (Request i e)
  then have i: "i < length (requests s)"
    and rs: "request_step i e (requests s ! i) s = Some s1"
    using st by (auto simp: step_def split: if_splits)
  show ?thesis
  proof (cases "\<exists>p t c. requests s ! i = Q_Route p t c")
    case True
    then show ?thesis using that Request i by blast
  next
    case False
    then show ?thesis using request_step_tasks [OF i rs, of k] more by auto
  qed
next
  case (Timeout i)
  then have i: "i < length (requests s)"
    and s1: "s1 = set_request i (Responded (InternalServerError ErrTimeout)) s"
    using st timeout_step_frame [of i "requests s ! i" s s1]
    by (auto simp: step_def split: if_splits)
  have "generation_tasks s1 k \<le> generation_tasks s k"
    unfolding s1 using i by (intro tasks_same) simp_all
  then show ?thesis using more by simp
next
  case (Worker w e)
  then have "generation_tasks s1 k \<le> generation_tasks s k"
    using st worker_step_tasks [of w s _ _ e s1 k]
    by (auto simp: step_def imageThumbnailWorker_def movieThumbnailWorker_def
        split: if_splits prod.splits mclass.splits)
  then show ?thesis using more by simp
next
  case (Tick d)
  then have "generation_tasks s1 k = generation_tasks s k"
    using st by (auto simp: step_def generation_tasks_def split: if_splits)
  then show ?thesis using more by simp
qed


lemma route_step_tasks:
  assumes i: "i < length (requests s)" and at: "requests s ! i = Q_Route p t c"
    and t: "t = getThumbnailPath p"
    and st: "request_step i e (requests s ! i) s = Some s1"
  shows "generation_tasks s1 k \<le> generation_tasks s k + (if t = k then 1 else 0)"
proof (cases "spec_media_class p")
  case None
  then have "s1 = set_request i (Responded (InternalServerError ErrUnsupported)) s"
    using st at route_by_class [of i e p t c s] by simp
  then have "generation_tasks s1 k \<le> generation_tasks s k"
    using i at by (auto intro!: tasks_same)
  then show ?thesis by simp
next
  case (Some cls)
  then have s1: "s1 = enqueue_or_fallback i cls p t c s"
    using st at route_by_class [of i e p t c s] by simp
  show ?thesis
  proof (cases "try_send (queue_of cls s) p")
    case None
    then have "s1 = set_request i (Q_Generate p t c) s"
      using s1 by (simp add: enqueue_or_fallback_def)
    then show ?thesis using tasks_set_request [OF i, of "Q_Generate p t c" k] at by simp
  next
    case (Some q)
    then have q: "q = (queue_of cls s)\<lparr>buf := buf (queue_of cls s) @ [p]\<rparr>"
      by (auto simp: try_send_def split: if_splits)
    let ?m = "set_queue cls q s"
    have m: "requests ?m = requests s"
      "generation_tasks ?m k = generation_tasks s k + (if getThumbnailPath p = k then 1 else 0)"
      using q by (cases cls; simp add: set_queue_def queue_of_def generation_tasks_def queued_def)+
    have "s1 = set_request i (Q_Wait t c (now s + wait_timeout)) ?m"
      using s1 Some by (simp add: enqueue_or_fallback_def)
    then show ?thesis
      using tasks_set_request [of i ?m "Q_Wait t c (now s + wait_timeout)" k] i at m t by simp
  qed
qed

text \<open>
  Claim C1, as amended. In every reachable state and for every thumbnail path, at most
  one generation task is queued or executing, and while there is one the pending map has
  an entry for the path. A step adds a generation task only when it is the routing step
  of the request that stored the entry. At most one tool run for the path has succeeded,
  and no run for a path follows a successful run for it.
\<close>
theorem one_generation_at_a_time:
  assumes r: "reachable s"
  shows "generation_tasks s k \<le> 1
         \<and> (0 < generation_tasks s k \<longrightarrow> pendingThumbs s k \<noteq> None)
         \<and> (\<forall>ev s1. step ev s = Some s1 \<longrightarrow> generation_tasks s k < generation_tasks s1 k \<longrightarrow>
               (\<exists>i e p c. ev = Request i e \<and> i < length (requests s)
                   \<and> requests s ! i = Q_Route p k c \<and> pendingThumbs s k = Some c))
         \<and> length (successful_runs_for s k) \<le> 1
         \<and> (\<forall>xs x ys. calls s = xs @ x # ys \<longrightarrow> inv_ok x \<longrightarrow>
               (\<forall>y\<in>set ys. inv_output y \<noteq> inv_output x))"
proof -
  have inv: "server_inv s" using r by (rule reachable_inv)
  have pu: "purity s" using r by (rule reachable_purity)
  have le: "generation_tasks s k \<le> owners s k" by (rule generation_tasks_le_owners)
  have 1: "generation_tasks s k \<le> 1" using le server_invD(2) [OF inv, of k] by simp
  have 2: "0 < generation_tasks s k \<longrightarrow> pendingThumbs s k \<noteq> None"
  proof (intro impI notI)
    assume "0 < generation_tasks s k" and "pendingThumbs s k = None"
    then show False using le server_invD(3) [OF inv, of k] by simp
  qed
  have 3: "\<exists>i e p c. ev = Request i e \<and> i < length (requests s)
                   \<and> requests s ! i = Q_Route p k c \<and> pendingThumbs s k = Some c"
    if st: "step ev s = Some s1" and more: "generation_tasks s k < generation_tasks s1 k"
    for ev s1
  proof -
    obtain i e p t c where ev: "ev = Request i e" and i: "i < length (requests s)"
      and at: "requests s ! i = Q_Route p t c"
      using step_tasks [OF st more] by blast
    have ok: "t = getThumbnailPath p" "pendingThumbs s t = Some c"
      using server_invD(4) [OF inv i] at by auto
    have rs: "request_step i e (requests s ! i) s = Some s1"
      using st ev i by (auto simp: step_def split: if_splits)
    have "t = k" using route_step_tasks [OF i at ok(1) rs, of k] more by (auto split: if_splits)
    then show ?thesis using ev i at ok by auto
  qed
  have 4: "length (successful_runs_for s k) \<le> 1"
    using pu run_once_successes [of "calls s" k] by (simp add: purity_def successful_runs_for_def)
  have 5: "\<forall>xs x ys. calls s = xs @ x # ys \<longrightarrow> inv_ok x \<longrightarrow>
               (\<forall>y\<in>set ys. inv_output y \<noteq> inv_output x)"
    using pu run_once_split unfolding purity_def by metis
  show ?thesis using 1 2 3 4 5 by blast
qed

lemma starter_reachable: "reachable starter_state"
proof -
  have "exec starter_trace (main_server fs_example) = Some starter_state"
    by (simp add: starter_trace_def starter_state_def trace_eval thumb_clip class_clip class_eval)
  moreover have "reachable (main_server fs_example)"
    unfolding main_server_def by (rule reachable.start)
  ultimately show ?thesis using reachable_exec by blast
qed

lemma queued_step: "step (Request 0 env_ok) starter_state = Some queued_state"
  by (simp add: starter_state_def queued_state_def step_eval wait_timeout_def time_Second_def
      class_clip class_eval Let_def)

text \<open>A request for \<open>/r/clip.mov\<close> on the main server, before and after it queues the path.\<close>

theorem one_generation_at_a_time_witness:
  "generation_tasks queued_state ''/r/.small/clip.mov.jpg'' = 1
   \<and> pendingThumbs queued_state ''/r/.small/clip.mov.jpg'' \<noteq> None
   \<and> generation_tasks starter_state ''/r/.small/clip.mov.jpg'' = 0
   \<and> (\<exists>p c. requests starter_state ! 0 = Q_Route p ''/r/.small/clip.mov.jpg'' c
          \<and> pendingThumbs starter_state ''/r/.small/clip.mov.jpg'' = Some c)"
proof -
  let ?k = "''/r/.small/clip.mov.jpg''"
  have rq: "reachable queued_state"
    using starter_reachable queued_step by (rule reachable.step)
  have t0: "generation_tasks starter_state ?k = 0"
    by (simp add: generation_tasks_def starter_state_def queued_def)
  have t1: "generation_tasks queued_state ?k = 1"
    by (simp add: generation_tasks_def queued_state_def queued_def thumb_clip)
  have a: "pendingThumbs queued_state ?k \<noteq> None"
    using one_generation_at_a_time [OF rq, of ?k] t1 by simp
  have lt: "generation_tasks starter_state ?k < generation_tasks queued_state ?k"
    using t0 t1 by simp
  have "\<forall>ev s1. step ev starter_state = Some s1 \<longrightarrow>
          generation_tasks starter_state ?k < generation_tasks s1 ?k \<longrightarrow>
          (\<exists>i e p c. ev = Request i e \<and> i < length (requests starter_state)
             \<and> requests starter_state ! i = Q_Route p ?k c
             \<and> pendingThumbs starter_state ?k = Some c)"
    using one_generation_at_a_time [OF starter_reachable, of ?k] by blast
  then have "\<exists>i e p c. Request 0 env_ok = Request i e \<and> i < length (requests starter_state)
          \<and> requests starter_state ! i = Q_Route p ?k c \<and> pendingThumbs starter_state ?k = Some c"
    using queued_step lt by blast
  then have b: "\<exists>p c. requests starter_state ! 0 = Q_Route p ?k c
          \<and> pendingThumbs starter_state ?k = Some c" by auto
  show ?thesis using t0 t1 a b by blast
qed

text \<open>
  Claim C1 as stated fails: two requests for \<open>/r/clip.mov\<close> are in flight, both having
  found no thumbnail, and ffmpeg is run twice for it, because the first run fails and the
  second request stores its entry after the worker has removed the first.
\<close>

theorem transcoder_invoked_twice:
  "requests_after (take 6 twice_trace) fs_example
     = Some [Q_LoadOrStore ''/r/clip.mov'' ''/r/.small/clip.mov.jpg'',
             Q_LoadOrStore ''/r/clip.mov'' ''/r/.small/clip.mov.jpg'']
   \<and> tool_runs_after twice_trace fs_example ''/r/.small/clip.mov.jpg'' = Some 2"
  by (simp add: requests_after_def tool_runs_after_def runs_for_def twice_trace_def trace_eval
      thumb_clip class_clip class_eval generateThumbnail_start_def cmd_Run_def)

end
